theory Spec2Isabelle
  imports Main
begin

section \<open>JavaScript strings\<close>

text \<open>
  A JavaScript string is a sequence of UTF-16 code units. A code unit is modelled as a
  natural number (every theorem below holds for all of them, the values below 65536
  included); a string is a list of code units. \<open>str\<close> reads an ASCII literal.
\<close>

type_synonym cu = nat
type_synonym jsstring = "cu list"

definition str :: "string \<Rightarrow> jsstring" where
  "str s = map of_char s"

text \<open>
  The character sets of ECMAScript: \<open>\s\<close> (WhiteSpace and LineTerminator, also what
  \<open>trim\<close> strips), the line terminators (what \<open>.\<close> excludes), \<open>\d\<close> and \<open>\w\<close>.
\<close>

definition is_space :: "cu \<Rightarrow> bool" where
  "is_space c = ((9 \<le> c \<and> c \<le> 13) \<or> c = 32 \<or> c = 160 \<or> c = 5760 \<or> (8192 \<le> c \<and> c \<le> 8202)
     \<or> c = 8232 \<or> c = 8233 \<or> c = 8239 \<or> c = 8287 \<or> c = 12288 \<or> c = 65279)"

definition is_line_terminator :: "cu \<Rightarrow> bool" where
  "is_line_terminator c = (c = 10 \<or> c = 13 \<or> c = 8232 \<or> c = 8233)"

definition is_digit :: "cu \<Rightarrow> bool" where
  "is_digit c = (48 \<le> c \<and> c \<le> 57)"

definition is_upper :: "cu \<Rightarrow> bool" where
  "is_upper c = (65 \<le> c \<and> c \<le> 90)"

definition is_lower :: "cu \<Rightarrow> bool" where
  "is_lower c = (97 \<le> c \<and> c \<le> 122)"

definition is_word :: "cu \<Rightarrow> bool" where
  "is_word c = (is_upper c \<or> is_lower c \<or> is_digit c \<or> c = 95)"

text \<open>
  Case folding. Without the \<open>u\<close> flag, \<open>/i\<close> compares the upper-case images of the two
  code units, and never lets a code unit of 128 or more fold to an ASCII one. Every
  pattern of the program that carries \<open>/i\<close> is ASCII, so comparing \<open>canon\<close> images is
  exact: a code unit of 128 or more is its own image here and equals no ASCII image.
  \<open>toLowerCase\<close> is applied by the program to \<open>\w+\<close> captures only, which are ASCII.
\<close>

definition canon :: "cu \<Rightarrow> cu" where
  "canon c = (if is_lower c then c - 32 else c)"

definition lower :: "cu \<Rightarrow> cu" where
  "lower c = (if is_upper c then c + 32 else c)"

definition toLowerCase :: "jsstring \<Rightarrow> jsstring" where
  "toLowerCase s = map lower s"

definition trim :: "jsstring \<Rightarrow> jsstring" where
  "trim s = rev (dropWhile is_space (rev (dropWhile is_space s)))"

definition startsWith :: "jsstring \<Rightarrow> jsstring \<Rightarrow> bool" where
  "startsWith s w = (take (length w) s = w)"

text \<open>\<open>s.padStart(2, '0')\<close>: zeros in front, up to two code units.\<close>

definition padStart2 :: "jsstring \<Rightarrow> jsstring" where
  "padStart2 s = replicate (2 - length s) 48 @ s"

text \<open>\<open>s.split(c)\<close> for a separator of one code unit: never an empty array.\<close>

fun split_on :: "cu \<Rightarrow> jsstring \<Rightarrow> jsstring list" where
  "split_on c [] = [[]]"
| "split_on c (x # xs) =
     (if x = c then [] # split_on c xs
      else (case split_on c xs of [] \<Rightarrow> [[x]] | y # ys \<Rightarrow> (x # y) # ys))"

text \<open>The decimal text of an integer, as a template literal prints a Number.\<close>

fun digits_of :: "nat \<Rightarrow> jsstring" where
  "digits_of n = (if n < 10 then [48 + n] else digits_of (n div 10) @ [48 + n mod 10])"

definition show_int :: "int \<Rightarrow> jsstring" where
  "show_int i = (if i < 0 then 45 # digits_of (nat (- i)) else digits_of (nat i))"

section \<open>Regular expressions\<close>

text \<open>
  The regular expressions of the program, as syntax trees, and a backtracking matcher
  that lists the successes of a pattern at a position in the order in which the
  ECMAScript matcher tries them: the head of the list is the match JavaScript finds.
  A state is the index reached, the input from there on, and the captures.
\<close>

datatype cls = CDigit | CSpace | CWord | CDot | CAny | CChar cu | CRange cu cu | CUnion cls cls

fun cls_mem :: "cls \<Rightarrow> cu \<Rightarrow> bool" where
  "cls_mem CDigit c = is_digit c"
| "cls_mem CSpace c = is_space c"
| "cls_mem CWord c = is_word c"
| "cls_mem CDot c = (\<not> is_line_terminator c)"
| "cls_mem CAny c = True"
| "cls_mem (CChar a) c = (c = a)"
| "cls_mem (CRange a b) c = (a \<le> c \<and> c \<le> b)"
| "cls_mem (CUnion k l) c = (cls_mem k c \<or> cls_mem l c)"

text \<open>Under \<open>/i\<close> a class holds a code unit when it holds one of its case variants.\<close>

definition cls_mem_i :: "cls \<Rightarrow> cu \<Rightarrow> bool" where
  "cls_mem_i k c = (cls_mem k c \<or> cls_mem k (canon c) \<or> cls_mem k (lower c))"

datatype regex =
    Lit jsstring
  | LitI jsstring
  | Cls cls
  | ClsI cls
  | Eps
  | Seq regex regex
  | Alt regex regex
  | Star regex
  | LazyStar regex
  | Group nat regex
  | Look regex
  | Bol
  | Eol

type_synonym captures = "nat \<Rightarrow> jsstring option"

datatype mstate = MState (st_pos: nat) (st_rest: jsstring) (st_caps: captures)

definition no_caps :: captures where
  "no_caps = (\<lambda>i. None)"

definition advance :: "nat \<Rightarrow> mstate \<Rightarrow> mstate" where
  "advance n st = MState (st_pos st + n) (drop n (st_rest st)) (st_caps st)"

definition set_cap :: "nat \<Rightarrow> mstate \<Rightarrow> mstate \<Rightarrow> mstate" where
  "set_cap i st st' =
     MState (st_pos st') (st_rest st')
       ((st_caps st')(i := Some (take (st_pos st' - st_pos st) (st_rest st))))"

text \<open>
  A greedy \<open>*\<close> tries one more iteration first and the empty iteration last; a lazy
  \<open>*?\<close> the other way round. An iteration that consumes nothing is rejected, as the
  ECMAScript RepeatMatcher does. A lookahead keeps the position and takes the captures
  of the first success of its body.
\<close>

function ms :: "regex \<Rightarrow> mstate \<Rightarrow> mstate list" where
  "ms (Lit w) st = (if take (length w) (st_rest st) = w then [advance (length w) st] else [])"
| "ms (LitI w) st =
     (if map canon (take (length w) (st_rest st)) = map canon w then [advance (length w) st] else [])"
| "ms (Cls k) st =
     (case st_rest st of [] \<Rightarrow> [] | x # xs \<Rightarrow> if cls_mem k x then [advance 1 st] else [])"
| "ms (ClsI k) st =
     (case st_rest st of [] \<Rightarrow> [] | x # xs \<Rightarrow> if cls_mem_i k x then [advance 1 st] else [])"
| "ms Eps st = [st]"
| "ms (Seq a b) st = concat (map (\<lambda>st'. ms b st') (ms a st))"
| "ms (Alt a b) st = ms a st @ ms b st"
| "ms (Star r) st =
     concat (map (\<lambda>st'. if length (st_rest st') < length (st_rest st) then ms (Star r) st' else [])
       (ms r st)) @ [st]"
| "ms (LazyStar r) st =
     st # concat (map (\<lambda>st'. if length (st_rest st') < length (st_rest st) then ms (LazyStar r) st' else [])
       (ms r st))"
| "ms (Group i r) st = map (set_cap i st) (ms r st)"
| "ms (Look r) st = (case ms r st of [] \<Rightarrow> [] | st' # _ \<Rightarrow> [MState (st_pos st) (st_rest st) (st_caps st')])"
| "ms Bol st = (if st_pos st = 0 then [st] else [])"
| "ms Eol st = (if st_rest st = [] then [st] else [])"
  by pat_completeness auto
termination
  by (relation "measures [\<lambda>(r, st). size r, \<lambda>(r, st). length (st_rest st)]") auto

text \<open>Sequences, \<open>r+\<close>, \<open>r?\<close>, \<open>\d{2}\<close> and \<open>\d{4}\<close>, written out.\<close>

fun seqs :: "regex list \<Rightarrow> regex" where
  "seqs [] = Eps"
| "seqs [r] = r"
| "seqs (r # rs) = Seq r (seqs rs)"

definition Plus :: "regex \<Rightarrow> regex" where
  "Plus r = Seq r (Star r)"

definition Opt :: "regex \<Rightarrow> regex" where
  "Opt r = Alt r Eps"

definition digit2 :: regex where
  "digit2 = Seq (Cls CDigit) (Cls CDigit)"

definition digit4 :: regex where
  "digit4 = Seq (Cls CDigit) (Seq (Cls CDigit) (Seq (Cls CDigit) (Cls CDigit)))"

text \<open>
  \<open>s.match(re)\<close> without the \<open>g\<close> flag: the leftmost start at which the pattern
  succeeds, with the first success there. The result is the index of the match, the
  matched text and the captures; \<open>None\<close> is \<open>null\<close>. \<open>search re p s\<close> reads the
  input \<open>s\<close> that starts at index \<open>p\<close>.
\<close>

record match_result =
  m_index :: nat
  m_text :: jsstring
  m_caps :: captures

definition mk_match :: "nat \<Rightarrow> jsstring \<Rightarrow> mstate \<Rightarrow> match_result" where
  "mk_match p s st = \<lparr>m_index = p, m_text = take (st_pos st - p) s, m_caps = st_caps st\<rparr>"

fun search :: "regex \<Rightarrow> nat \<Rightarrow> jsstring \<Rightarrow> match_result option" where
  "search re p [] = (case ms re (MState p [] no_caps) of [] \<Rightarrow> None | st # _ \<Rightarrow> Some (mk_match p [] st))"
| "search re p (x # xs) =
     (case ms re (MState p (x # xs) no_caps) of
        [] \<Rightarrow> search re (Suc p) xs
      | st # _ \<Rightarrow> Some (mk_match p (x # xs) st))"

definition match_re :: "regex \<Rightarrow> jsstring \<Rightarrow> match_result option" where
  "match_re re s = search re 0 s"

text \<open>
  \<open>s.match(re)\<close> with the \<open>g\<close> flag: the texts of the successive matches, each
  search starting where the last match ended, or one code unit further after an empty
  match. \<open>skip\<close> counts the code units of the last match still to pass. JavaScript
  returns \<open>null\<close> where this list is empty.
\<close>

fun scan_all :: "regex \<Rightarrow> nat \<Rightarrow> nat \<Rightarrow> jsstring \<Rightarrow> jsstring list" where
  "scan_all re skip p [] =
     (if 0 < skip then []
      else (case ms re (MState p [] no_caps) of [] \<Rightarrow> [] | st # _ \<Rightarrow> [[]]))"
| "scan_all re skip p (x # xs) =
     (if 0 < skip then scan_all re (skip - 1) (Suc p) xs
      else (case ms re (MState p (x # xs) no_caps) of
              [] \<Rightarrow> scan_all re 0 (Suc p) xs
            | st # _ \<Rightarrow> take (st_pos st - p) (x # xs) # scan_all re (st_pos st - p - 1) (Suc p) xs))"

definition match_all :: "regex \<Rightarrow> jsstring \<Rightarrow> jsstring list" where
  "match_all re s = scan_all re 0 0 s"

text \<open>\<open>s.replace(re, '')\<close> without the \<open>g\<close> flag: the first match is cut out.\<close>

definition remove_first :: "regex \<Rightarrow> jsstring \<Rightarrow> jsstring" where
  "remove_first re s =
     (case match_re re s of
        None \<Rightarrow> s
      | Some m \<Rightarrow> take (m_index m) s @ drop (m_index m + length (m_text m)) s)"

text \<open>
  \<open>s.split(re)\<close> for a pattern without groups. \<open>seg\<close> is the piece collected since the
  last separator. A separator match that is empty at the start of the piece is no
  separator; the matcher is never tried at the end of the input.
\<close>

fun split_loop :: "regex \<Rightarrow> nat \<Rightarrow> nat \<Rightarrow> jsstring \<Rightarrow> jsstring \<Rightarrow> jsstring list" where
  "split_loop re skip q seg [] = [seg]"
| "split_loop re skip q seg (x # xs) =
     (if 0 < skip then split_loop re (skip - 1) (Suc q) [] xs
      else (case ms re (MState q (x # xs) no_caps) of
              [] \<Rightarrow> split_loop re 0 (Suc q) (seg @ [x]) xs
            | st # _ \<Rightarrow>
                if st_pos st = q then
                  (if seg = [] then split_loop re 0 (Suc q) [x] xs
                   else seg # split_loop re 0 (Suc q) [x] xs)
                else seg # split_loop re (st_pos st - q - 1) (Suc q) [] xs))"

definition split_re :: "regex \<Rightarrow> jsstring \<Rightarrow> jsstring list" where
  "split_re re s =
     (if s = [] then (case ms re (MState 0 [] no_caps) of [] \<Rightarrow> [[]] | st # _ \<Rightarrow> [])
      else split_loop re 0 0 [] s)"

section \<open>Values that may be undefined\<close>

text \<open>
  Two things can go wrong in the program: a method is called on \<open>undefined\<close> (a
  capture that did not take part, an array element that is not there), which throws a
  TypeError, or \<open>undefined\<close> is stored where the record holds a string. Both are results
  of the model, so that their absence is a theorem.
\<close>

datatype js_fault = TypeError | UndefinedElement

definition index :: "'a list \<Rightarrow> nat \<Rightarrow> 'a option" where
  "index xs i = (if i < length xs then Some (xs ! i) else None)"

definition receiver :: "'a option \<Rightarrow> js_fault + 'a" where
  "receiver v = (case v of None \<Rightarrow> Inl TypeError | Some x \<Rightarrow> Inr x)"

definition element :: "'a option \<Rightarrow> js_fault + 'a" where
  "element v = (case v of None \<Rightarrow> Inl UndefinedElement | Some x \<Rightarrow> Inr x)"

definition interpolate :: "jsstring option \<Rightarrow> jsstring" where
  "interpolate v = (case v of None \<Rightarrow> str ''undefined'' | Some x \<Rightarrow> x)"

definition bind :: "js_fault + 'a \<Rightarrow> ('a \<Rightarrow> js_fault + 'b) \<Rightarrow> js_fault + 'b" where
  "bind m f = (case m of Inl e \<Rightarrow> Inl e | Inr x \<Rightarrow> f x)"

fun map_r :: "('a \<Rightarrow> js_fault + 'b) \<Rightarrow> 'a list \<Rightarrow> js_fault + 'b list" where
  "map_r f [] = Inr []"
| "map_r f (x # xs) = bind (f x) (\<lambda>y. bind (map_r f xs) (\<lambda>ys. Inr (y # ys)))"

section \<open>The Date Normalizer\<close>

text \<open>\<open>(?:st|nd|rd|th)\<close>, and the classes \<open>\d\<close>, \<open>\s\<close>, \<open>\w\<close>, \<open>.\<close> repeated.\<close>

definition ordinal :: regex where
  "ordinal = Alt (LitI (str ''st'')) (Alt (LitI (str ''nd'')) (Alt (LitI (str ''rd'')) (LitI (str ''th''))))"

definition digits1 :: regex where
  "digits1 = Plus (Cls CDigit)"

definition spaces0 :: regex where
  "spaces0 = Star (Cls CSpace)"

definition spaces1 :: regex where
  "spaces1 = Plus (Cls CSpace)"

definition word1 :: regex where
  "word1 = Plus (Cls CWord)"

definition rest_of_line :: regex where
  "rest_of_line = Plus (Cls CDot)"

text \<open>\<open>/(\d+)(?:st|nd|rd|th)\s+(\w+)\s+(\d{4})/i\<close>\<close>

definition ggRe :: regex where
  "ggRe = seqs [Group 1 digits1, ordinal, spaces1, Group 2 word1, spaces1, Group 3 digit4]"

text \<open>\<open>/(\d+)(?:st|nd|rd|th)\s+(\w+)\s+each year/i\<close>\<close>

definition recurringRe :: regex where
  "recurringRe = seqs [Group 1 digits1, ordinal, spaces1, Group 2 word1, spaces1, LitI (str ''each year'')]"

text \<open>\<open>/^(\d{4})\/(\d{2})\/(\d{2})$/\<close>\<close>

definition jpRe :: regex where
  "jpRe = seqs [Bol, Group 1 digit4, Lit (str ''/''), Group 2 digit2, Lit (str ''/''), Group 3 digit2, Eol]"

text \<open>\<open>/^(\d{4})\.\s*(\d{2})\.\s*(\d{2})\.?$/\<close>\<close>

definition krRe :: regex where
  "krRe = seqs [Bol, Group 1 digit4, Lit (str ''.''), spaces0, Group 2 digit2, Lit (str ''.''), spaces0,
                Group 3 digit2, Opt (Lit (str ''.'')), Eol]"

text \<open>
  \<open>monthMap[key]\<close>: the twelve own properties of the object literal, and the two
  properties it inherits from \<open>Object.prototype\<close> whose names a lower-cased \<open>\w+\<close> capture
  can spell; the template literal prints those as Node does.
\<close>

definition monthNames :: "(jsstring \<times> jsstring) list" where
  "monthNames =
     [(str ''january'', str ''01''), (str ''february'', str ''02''), (str ''march'', str ''03''),
      (str ''april'', str ''04''), (str ''may'', str ''05''), (str ''june'', str ''06''),
      (str ''july'', str ''07''), (str ''august'', str ''08''), (str ''september'', str ''09''),
      (str ''october'', str ''10''), (str ''november'', str ''11''), (str ''december'', str ''12'')]"

definition inheritedProperties :: "(jsstring \<times> jsstring) list" where
  "inheritedProperties =
     [(str ''constructor'', str ''function Object() { [native code] }''),
      (str ''__proto__'', str ''[object Object]'')]"

definition monthMap :: "jsstring \<Rightarrow> jsstring option" where
  "monthMap = map_of (monthNames @ inheritedProperties)"

definition time_suffix :: jsstring where
  "time_suffix = str ''T00:00:00Z''"

text \<open>
  Each rule is \<open>Inr (Some r)\<close> when it returns \<open>r\<close>, \<open>Inr None\<close> when control falls
  through to the next rule. \<open>nowYear\<close> is \<open>new Date().getFullYear()\<close> at the call.
\<close>

definition ggRule :: "jsstring \<Rightarrow> js_fault + jsstring option" where
  "ggRule dateStr =
     (case match_re ggRe dateStr of
        None \<Rightarrow> Inr None
      | Some m \<Rightarrow>
          bind (receiver (m_caps m 2)) (\<lambda>month.
            case monthMap (toLowerCase month) of
              None \<Rightarrow> Inr None
            | Some monthNum \<Rightarrow>
                bind (receiver (m_caps m 1)) (\<lambda>day.
                  Inr (Some (interpolate (m_caps m 3) @ str ''-'' @ monthNum @ str ''-''
                             @ padStart2 day @ time_suffix)))))"

definition recurringRule :: "int \<Rightarrow> jsstring \<Rightarrow> js_fault + jsstring option" where
  "recurringRule nowYear dateStr =
     (case match_re recurringRe dateStr of
        None \<Rightarrow> Inr None
      | Some m \<Rightarrow>
          bind (receiver (m_caps m 2)) (\<lambda>month.
            case monthMap (toLowerCase month) of
              None \<Rightarrow> Inr None
            | Some monthNum \<Rightarrow>
                bind (receiver (m_caps m 1)) (\<lambda>day.
                  Inr (Some (show_int (nowYear + 1) @ str ''-'' @ monthNum @ str ''-''
                             @ padStart2 day @ time_suffix)))))"

definition digitRule :: "regex \<Rightarrow> jsstring \<Rightarrow> jsstring option" where
  "digitRule re dateStr =
     (case match_re re dateStr of
        None \<Rightarrow> None
      | Some m \<Rightarrow>
          Some (interpolate (m_caps m 1) @ str ''-'' @ interpolate (m_caps m 2) @ str ''-''
                @ interpolate (m_caps m 3) @ time_suffix))"

definition normalizeDateString :: "int \<Rightarrow> jsstring \<Rightarrow> js_fault + jsstring option" where
  "normalizeDateString nowYear dateStr =
     (if dateStr = [] then Inr None
      else bind (ggRule dateStr) (\<lambda>gg.
        case gg of
          Some r \<Rightarrow> Inr (Some r)
        | None \<Rightarrow>
            bind (recurringRule nowYear dateStr) (\<lambda>rec.
              case rec of
                Some r \<Rightarrow> Inr (Some r)
              | None \<Rightarrow>
                  (case digitRule jpRe dateStr of
                     Some r \<Rightarrow> Inr (Some r)
                   | None \<Rightarrow>
                       (case digitRule krRe dateStr of
                          Some r \<Rightarrow> Inr (Some r)
                        | None \<Rightarrow> Inr (Some dateStr))))))"

section \<open>Field extraction\<close>

text \<open>
  \<open>whoisText\<close> is the text that the inner functions of \<open>parseWhoisData\<close> close over.
  The labels put into \<open>new RegExp\<close> are the program's constants: letters and spaces
  only, so each stands in its pattern as a literal.

  \<open>parseField\<close>: for each label in turn the colon form
  \<open>new RegExp(`${f}[\\.\\s]*:\\s*(.+)`, 'i')\<close>, then the bracket form
  \<open>new RegExp(`\\[${f}\\]\\s+(.+)`, 'i')\<close>.
\<close>

definition colonFieldRe :: "jsstring \<Rightarrow> regex" where
  "colonFieldRe f = seqs [LitI f, Star (Cls (CUnion (CChar 46) CSpace)), LitI (str '':''), spaces0,
                          Group 1 rest_of_line]"

definition bracketFieldRe :: "jsstring \<Rightarrow> regex" where
  "bracketFieldRe f = seqs [LitI (str ''[''), LitI f, LitI (str '']''), spaces1, Group 1 rest_of_line]"

definition trimmedCapture :: "match_result \<Rightarrow> js_fault + jsstring" where
  "trimmedCapture m = bind (receiver (m_caps m 1)) (\<lambda>v. Inr (trim v))"

fun parseFieldLoop :: "jsstring \<Rightarrow> jsstring list \<Rightarrow> js_fault + jsstring option" where
  "parseFieldLoop whoisText [] = Inr None"
| "parseFieldLoop whoisText (f # fs) =
     (case match_re (colonFieldRe f) whoisText of
        Some colonMatch \<Rightarrow> bind (trimmedCapture colonMatch) (\<lambda>v. Inr (Some v))
      | None \<Rightarrow>
          (case match_re (bracketFieldRe f) whoisText of
             Some bracketMatch \<Rightarrow> bind (trimmedCapture bracketMatch) (\<lambda>v. Inr (Some v))
           | None \<Rightarrow> parseFieldLoop whoisText fs))"

definition parseField :: "jsstring \<Rightarrow> jsstring \<Rightarrow> jsstring list \<Rightarrow> js_fault + jsstring option" where
  "parseField whoisText field alternativeFields = parseFieldLoop whoisText (field # alternativeFields)"

text \<open>
  \<open>parseMultipleFields\<close>: \<open>new RegExp(`${field}:\\s*(.+)`, 'ig')\<close>; of each match the
  piece between its first and its second colon, trimmed.
\<close>

definition multiFieldRe :: "jsstring \<Rightarrow> regex" where
  "multiFieldRe field = seqs [LitI field, LitI (str '':''), spaces0, Group 1 rest_of_line]"

definition secondPiece :: "jsstring \<Rightarrow> js_fault + jsstring" where
  "secondPiece m = bind (receiver (index (split_on 58 m) 1)) (\<lambda>v. Inr (trim v))"

definition parseMultipleFields :: "jsstring \<Rightarrow> jsstring \<Rightarrow> js_fault + jsstring list" where
  "parseMultipleFields whoisText field =
     (case match_all (multiFieldRe field) whoisText of
        [] \<Rightarrow> Inr []
      | m # matches \<Rightarrow> map_r secondPiece (m # matches))"

subsection \<open>Name servers\<close>

text \<open>
  \<open>/Name servers:\s*([\s\S]*?)(?=\n\n|WHOIS lookup)/i\<close> and
  \<open>/Nameservers\s*\n([\s\S]*?)(?=\n\n|\n[A-Z])/i\<close>
\<close>

definition nsBlockReA :: regex where
  "nsBlockReA = seqs [LitI (str ''Name servers:''), spaces0, Group 1 (LazyStar (Cls CAny)),
                      Look (Alt (LitI [10, 10]) (LitI (str ''WHOIS lookup'')))]"

definition nsBlockReB :: regex where
  "nsBlockReB = seqs [LitI (str ''Nameservers''), spaces0, LitI [10], Group 1 (LazyStar (Cls CAny)),
                      Look (Alt (LitI [10, 10]) (Seq (LitI [10]) (ClsI (CRange 65 90))))]"

definition multilinePatterns :: "regex list" where
  "multilinePatterns = [nsBlockReA, nsBlockReB]"

text \<open>\<open>line.split(/\s+/)[0]\<close>\<close>

definition firstWord :: "jsstring \<Rightarrow> jsstring option" where
  "firstWord line = index (split_re spaces1 line) 0"

definition blockServers :: "jsstring \<Rightarrow> js_fault + jsstring list" where
  "blockServers body =
     map_r (\<lambda>line. element (firstWord line))
       (filter (\<lambda>line. line \<noteq> [] \<and> \<not> startsWith line (str ''WHOIS''))
          (map trim (split_on 10 body)))"

fun nsBlocks :: "jsstring \<Rightarrow> regex list \<Rightarrow> js_fault + jsstring list option" where
  "nsBlocks whoisText [] = Inr None"
| "nsBlocks whoisText (pattern # patterns) =
     (case match_re pattern whoisText of
        None \<Rightarrow> nsBlocks whoisText patterns
      | Some m \<Rightarrow>
          bind (receiver (m_caps m 1)) (\<lambda>body.
            bind (blockServers body) (\<lambda>servers.
              if 0 < length servers then Inr (Some servers) else nsBlocks whoisText patterns)))"

definition colonPatterns :: "jsstring list" where
  "colonPatterns = [str ''nserver'', str ''Nserver'', str ''Name Server'', str ''nameservers'',
                    str ''nameserver'', str ''Host Name'']"

text \<open>\<open>new RegExp(`${field}\\s*:\\s*(.+)`, 'ig')\<close>, and \<open>/\.$/\<close>\<close>

definition nsColonRe :: "jsstring \<Rightarrow> regex" where
  "nsColonRe field = seqs [LitI field, spaces0, LitI (str '':''), spaces0, Group 1 rest_of_line]"

definition trailingDotRe :: regex where
  "trailingDotRe = Seq (Lit (str ''.'')) Eol"

definition colonServer :: "jsstring \<Rightarrow> js_fault + jsstring" where
  "colonServer m =
     bind (secondPiece m) (\<lambda>v.
       bind (receiver (firstWord v)) (\<lambda>w. Inr (remove_first trailingDotRe w)))"

fun nsColon :: "jsstring \<Rightarrow> jsstring list \<Rightarrow> js_fault + jsstring list option" where
  "nsColon whoisText [] = Inr None"
| "nsColon whoisText (field # others) =
     (case match_all (nsColonRe field) whoisText of
        [] \<Rightarrow> nsColon whoisText others
      | m # matches \<Rightarrow> bind (map_r colonServer (m # matches)) (\<lambda>servers. Inr (Some servers)))"

text \<open>\<open>/\[Name Server\]\s+(.+)/gi\<close> and \<open>/\[Name Server\]/i\<close>\<close>

definition jpNsRe :: regex where
  "jpNsRe = seqs [LitI (str ''[Name Server]''), spaces1, Group 1 rest_of_line]"

definition jpNsLabelRe :: regex where
  "jpNsLabelRe = LitI (str ''[Name Server]'')"

definition bracketServer :: "jsstring \<Rightarrow> js_fault + jsstring" where
  "bracketServer m = element (firstWord (trim (remove_first jpNsLabelRe m)))"

definition nsBracket :: "jsstring \<Rightarrow> js_fault + jsstring list option" where
  "nsBracket whoisText =
     (case match_all jpNsRe whoisText of
        [] \<Rightarrow> Inr None
      | m # jpMatches \<Rightarrow> bind (map_r bracketServer (m # jpMatches)) (\<lambda>servers. Inr (Some servers)))"

definition parseNameservers :: "jsstring \<Rightarrow> js_fault + jsstring list option" where
  "parseNameservers whoisText =
     bind (nsBlocks whoisText multilinePatterns) (\<lambda>blocks.
       case blocks of
         Some servers \<Rightarrow> Inr (Some servers)
       | None \<Rightarrow>
           bind (nsColon whoisText colonPatterns) (\<lambda>colons.
             case colons of
               Some servers \<Rightarrow> Inr (Some servers)
             | None \<Rightarrow> nsBracket whoisText))"

subsection \<open>Status\<close>

text \<open>\<open>/Domain Status:\s*([\s\S]*?)(?=\n\n|Registrant:)/i\<close>\<close>

definition statusBlockRe :: regex where
  "statusBlockRe = seqs [LitI (str ''Domain Status:''), spaces0, Group 1 (LazyStar (Cls CAny)),
                         Look (Alt (LitI [10, 10]) (LitI (str ''Registrant:'')))]"

text \<open>
  An array is truthy whatever it holds, the empty one too: \<open>a || b\<close> on arrays is \<open>a\<close>,
  and \<open>b\<close> is not evaluated.
\<close>

definition truthyArray :: "'a list \<Rightarrow> bool" where
  "truthyArray xs = True"

definition orArray :: "js_fault + 'a list \<Rightarrow> js_fault + 'a list \<Rightarrow> js_fault + 'a list" where
  "orArray a b = bind a (\<lambda>xs. if truthyArray xs then Inr xs else b)"

definition statusBlock :: "jsstring \<Rightarrow> js_fault + jsstring list option" where
  "statusBlock whoisText =
     (case match_re statusBlockRe whoisText of
        None \<Rightarrow> Inr None
      | Some statusSection \<Rightarrow>
          bind (receiver (m_caps statusSection 1)) (\<lambda>body.
            Inr (case filter (\<lambda>line. line \<noteq> []) (map trim (split_on 10 body)) of
                   [] \<Rightarrow> None
                 | l # ls \<Rightarrow> Some (l # ls))))"

definition parseStatus :: "jsstring \<Rightarrow> js_fault + jsstring list option" where
  "parseStatus whoisText =
     bind (statusBlock whoisText) (\<lambda>block.
       case block of
         Some statuses \<Rightarrow> Inr (Some statuses)
       | None \<Rightarrow>
           bind (orArray (parseMultipleFields whoisText (str ''Domain Status''))
                   (orArray (parseMultipleFields whoisText (str ''Status''))
                      (parseMultipleFields whoisText (str ''state''))))
             (\<lambda>singleLineMatch.
                Inr (if truthyArray singleLineMatch \<and> 0 < length singleLineMatch
                     then Some singleLineMatch else None)))"

subsection \<open>Dates\<close>

text \<open>
  \<open>keyRe k\<close> is \<open>/k:\s*(.+)/i\<close>, \<open>keyReSp k\<close> is \<open>/k\s*:\s*(.+)/i\<close>. The two patterns
  with a Japanese label carry no \<open>i\<close> flag; their labels are given by code unit.
\<close>

definition keyRe :: "jsstring \<Rightarrow> regex" where
  "keyRe k = seqs [LitI k, LitI (str '':''), spaces0, Group 1 rest_of_line]"

definition keyReSp :: "jsstring \<Rightarrow> regex" where
  "keyReSp k = seqs [LitI k, spaces0, LitI (str '':''), spaces0, Group 1 rest_of_line]"

definition labelRe :: "jsstring \<Rightarrow> regex" where
  "labelRe l = seqs [Lit (str ''[''), Lit l, Lit (str '']''), spaces1, Group 1 rest_of_line]"

text \<open>\<open>/Registered on (\d+(?:st|nd|rd|th) \w+ \d{4})/i\<close>\<close>

definition registeredOnRe :: regex where
  "registeredOnRe = seqs [LitI (str ''Registered on ''),
     Group 1 (seqs [digits1, ordinal, LitI (str '' ''), word1, LitI (str '' ''), digit4])]"

text \<open>\<open>/Registry fee due on (\d+(?:st|nd|rd|th) \w+ each year)/i\<close>\<close>

definition feeDueRe :: regex where
  "feeDueRe = seqs [LitI (str ''Registry fee due on ''),
     Group 1 (seqs [digits1, ordinal, LitI (str '' ''), word1, LitI (str '' each year'')])]"

definition creationPatterns :: "regex list" where
  "creationPatterns =
     [registeredOnRe, keyRe (str ''created''), keyRe (str ''Created''), keyRe (str ''Creation Date''),
      keyRe (str ''Created On''), keyReSp (str ''Registered Date''),
      labelRe [30331, 37682, 24180, 26376, 26085]]"

definition expiryPatterns :: "regex list" where
  "expiryPatterns =
     [feeDueRe, keyRe (str ''paid-till''), keyRe (str ''Expire Date''),
      keyRe (str ''Registry Expiry Date''), keyReSp (str ''Expiration Date''),
      keyRe (str ''renewal date''), keyRe (str ''Expires On''),
      labelRe [26377, 21177, 26399, 38480]]"

fun parseDate :: "int \<Rightarrow> jsstring \<Rightarrow> regex list \<Rightarrow> js_fault + jsstring option" where
  "parseDate nowYear whoisText [] = Inr None"
| "parseDate nowYear whoisText (pattern # patterns) =
     (case match_re pattern whoisText of
        None \<Rightarrow> parseDate nowYear whoisText patterns
      | Some m \<Rightarrow> bind (trimmedCapture m) (\<lambda>rawDate. normalizeDateString nowYear rawDate))"

definition parseCreationDate :: "int \<Rightarrow> jsstring \<Rightarrow> js_fault + jsstring option" where
  "parseCreationDate nowYear whoisText = parseDate nowYear whoisText creationPatterns"

definition parseExpiryDate :: "int \<Rightarrow> jsstring \<Rightarrow> js_fault + jsstring option" where
  "parseExpiryDate nowYear whoisText = parseDate nowYear whoisText expiryPatterns"

section \<open>The Parsing Engine\<close>

record DomainRecord =
  domainName :: "jsstring option"
  registrar :: "jsstring option"
  creationDate :: "jsstring option"
  expirationDate :: "jsstring option"
  nameservers :: "jsstring list option"
  registrant :: "jsstring option"
  status :: "jsstring list option"
  dnssec :: "jsstring option"
  lastModified :: "jsstring option"

text \<open>
  \<open>parsedDomain || domainName\<close>: \<open>null\<close> and the empty string are falsy. The
  parameter \<open>domainName\<close> of \<open>parseWhoisData\<close> is \<open>fallbackName\<close> below, as the record
  has a field of that name.
\<close>

definition orFallback :: "jsstring option \<Rightarrow> jsstring option \<Rightarrow> jsstring option" where
  "orFallback parsedDomain fallbackName =
     (case parsedDomain of
        None \<Rightarrow> fallbackName
      | Some d \<Rightarrow> if d = [] then fallbackName else Some d)"

definition parseWhoisData :: "int \<Rightarrow> jsstring \<Rightarrow> jsstring option \<Rightarrow> js_fault + DomainRecord" where
  "parseWhoisData nowYear whoisText fallbackName =
     bind (parseField whoisText (str ''Domain'') [str ''Domain Name'', str ''domain name'', str ''domain''])
       (\<lambda>parsedDomain.
     bind (parseField whoisText (str ''Registrar'') [str ''REGISTRAR'', str ''registrar'']) (\<lambda>reg.
     bind (parseCreationDate nowYear whoisText) (\<lambda>created.
     bind (parseExpiryDate nowYear whoisText) (\<lambda>expires.
     bind (parseNameservers whoisText) (\<lambda>ns.
     bind (parseField whoisText (str ''Registrant'')
             [str ''registrant name'', str ''org'', str ''Organization'']) (\<lambda>regt.
     bind (parseStatus whoisText) (\<lambda>sts.
     bind (parseField whoisText (str ''DNSSEC'') [str ''Signed'', str ''dnssec'']) (\<lambda>sec.
     bind (parseField whoisText (str ''Last Modified'')
             [str ''last modified'', str ''Last Update'', str ''Changed'', str ''changed'']) (\<lambda>modified.
       Inr \<lparr>domainName = orFallback parsedDomain fallbackName, registrar = reg,
            creationDate = created, expirationDate = expires, nameservers = ns,
            registrant = regt, status = sts, dnssec = sec, lastModified = modified\<rparr>)))))))))"

section \<open>Notions used in the proofs\<close>

definition consumes :: "mstate \<Rightarrow> mstate \<Rightarrow> bool" where
  "consumes st st' = (\<exists>w. st_rest st = w @ st_rest st' \<and> st_pos st' = st_pos st + length w)"

primrec groups :: "regex \<Rightarrow> nat set" where
  "groups (Lit w) = {}"
| "groups (LitI w) = {}"
| "groups (Cls k) = {}"
| "groups (ClsI k) = {}"
| "groups Eps = {}"
| "groups (Seq a b) = groups a \<union> groups b"
| "groups (Alt a b) = groups a \<union> groups b"
| "groups (Star r) = groups r"
| "groups (LazyStar r) = groups r"
| "groups (Group i r) = insert i (groups r)"
| "groups (Look r) = groups r"
| "groups Bol = {}"
| "groups Eol = {}"

primrec sets_cap :: "nat \<Rightarrow> regex \<Rightarrow> bool" where
  "sets_cap i (Lit w) = False"
| "sets_cap i (LitI w) = False"
| "sets_cap i (Cls k) = False"
| "sets_cap i (ClsI k) = False"
| "sets_cap i Eps = False"
| "sets_cap i (Seq a b) = (sets_cap i a \<or> sets_cap i b)"
| "sets_cap i (Alt a b) = (sets_cap i a \<and> sets_cap i b)"
| "sets_cap i (Star r) = False"
| "sets_cap i (LazyStar r) = False"
| "sets_cap i (Group j r) = (i = j \<or> sets_cap i r)"
| "sets_cap i (Look r) = sets_cap i r"
| "sets_cap i Bol = False"
| "sets_cap i Eol = False"

definition consumed :: "mstate \<Rightarrow> mstate \<Rightarrow> jsstring" where
  "consumed st st' = take (st_pos st' - st_pos st) (st_rest st)"

primrec needs_colon :: "regex \<Rightarrow> bool" where
  "needs_colon (Lit w) = (58 \<in> set w)"
| "needs_colon (LitI w) = (58 \<in> set w)"
| "needs_colon (Cls k) = False"
| "needs_colon (ClsI k) = False"
| "needs_colon Eps = False"
| "needs_colon (Seq a b) = (needs_colon a \<or> needs_colon b)"
| "needs_colon (Alt a b) = (needs_colon a \<and> needs_colon b)"
| "needs_colon (Star r) = False"
| "needs_colon (LazyStar r) = False"
| "needs_colon (Group i r) = needs_colon r"
| "needs_colon (Look r) = False"
| "needs_colon Bol = False"
| "needs_colon Eol = False"

definition opt_trimmed :: "jsstring option \<Rightarrow> bool" where
  "opt_trimmed r = (case r of None \<Rightarrow> True | Some x \<Rightarrow> trim x = x)"

definition opt_nonempty :: "'a list option \<Rightarrow> bool" where
  "opt_nonempty r = (case r of None \<Rightarrow> True | Some xs \<Rightarrow> 0 < length xs)"

definition stamped :: "jsstring \<Rightarrow> bool" where
  "stamped r = (\<exists>a body. r = a # body @ time_suffix \<and> \<not> is_space a)"

definition opt_date :: "jsstring option \<Rightarrow> bool" where
  "opt_date r = (case r of None \<Rightarrow> True | Some x \<Rightarrow> trim x = x \<and> 0 < length x)"

fun firstRawDate :: "jsstring \<Rightarrow> regex list \<Rightarrow> jsstring option" where
  "firstRawDate t [] = None"
| "firstRawDate t (p # ps) =
     (case match_re p t of
        None \<Rightarrow> firstRawDate t ps
      | Some m \<Rightarrow> (case m_caps m 1 of None \<Rightarrow> None | Some v \<Rightarrow> Some (trim v)))"

definition not_recurring :: "jsstring option \<Rightarrow> bool" where
  "not_recurring raw = (case raw of None \<Rightarrow> True | Some s \<Rightarrow> match_re recurringRe s = None)"

definition first :: "regex \<Rightarrow> mstate \<Rightarrow> mstate \<Rightarrow> bool" where
  "first r st x = (\<exists>zs. ms r st = x # zs)"

definition starts_in :: "cls \<Rightarrow> jsstring \<Rightarrow> bool" where
  "starts_in k t = (case t of [] \<Rightarrow> False | x # xs \<Rightarrow> cls_mem k x)"

definition is_alpha :: "cu \<Rightarrow> bool" where
  "is_alpha c = (is_upper c \<or> is_lower c)"

definition ordinals :: "jsstring list" where
  "ordinals = [str ''st'', str ''nd'', str ''rd'', str ''th'']"

definition is_ordinal :: "jsstring \<Rightarrow> bool" where
  "is_ordinal w = (toLowerCase w \<in> set ordinals)"

definition no_month :: "regex \<Rightarrow> jsstring \<Rightarrow> bool" where
  "no_month re s =
     (case match_re re s of
        None \<Rightarrow> True
      | Some m \<Rightarrow> (case m_caps m 2 of None \<Rightarrow> False
                   | Some w \<Rightarrow> monthMap (toLowerCase w) = None))"

section \<open>Properties of the matcher and of the string operations\<close>

lemma advance_simps [simp]:
  "st_pos (advance n st) = st_pos st + n" "st_rest (advance n st) = drop n (st_rest st)"
  "st_caps (advance n st) = st_caps st"
  by (simp_all add: advance_def)

lemma set_cap_simps [simp]:
  "st_pos (set_cap i st st') = st_pos st'" "st_rest (set_cap i st st') = st_rest st'"
  "st_caps (set_cap i st st') j = (if j = i then Some (take (st_pos st' - st_pos st) (st_rest st)) else st_caps st' j)"
  by (simp_all add: set_cap_def)



lemma consumes_refl: "consumes st st"
  by (simp add: consumes_def)

lemma consumes_trans:
  assumes "consumes a b" and "consumes b c"
  shows "consumes a c"
proof -
  from assms obtain u v where u: "st_rest a = u @ st_rest b" "st_pos b = st_pos a + length u"
    and v: "st_rest b = v @ st_rest c" "st_pos c = st_pos b + length v"
    unfolding consumes_def by blast
  have "st_rest a = (u @ v) @ st_rest c \<and> st_pos c = st_pos a + length (u @ v)"
    using u v by simp
  then show ?thesis unfolding consumes_def by blast
qed

lemma consumes_advance: "n \<le> length (st_rest st) \<Longrightarrow> consumes st (advance n st)"
  unfolding consumes_def by (rule exI[of _ "take n (st_rest st)"]) simp

lemma take_eq_len: "take (length w) s = w \<Longrightarrow> length w \<le> length s"
proof -
  assume h: "take (length w) s = w"
  have "length (take (length w) s) = length w" by (simp only: h)
  then show ?thesis by (simp add: min_def split: if_splits)
qed

lemma take_canon_len: "map f (take (length w) s) = map f w \<Longrightarrow> length w \<le> length s"
proof -
  assume h: "map f (take (length w) s) = map f w"
  have "length (map f (take (length w) s)) = length (map f w)" by (simp only: h)
  then show ?thesis by (simp add: min_def split: if_splits)
qed

lemma ms_Lit_mem: "st' \<in> set (ms (Lit w) st) \<longleftrightarrow> take (length w) (st_rest st) = w \<and> st' = advance (length w) st"
  by auto

lemma ms_LitI_mem: "st' \<in> set (ms (LitI w) st) \<longleftrightarrow>
    map canon (take (length w) (st_rest st)) = map canon w \<and> st' = advance (length w) st"
  by auto

lemma ms_Cls_mem: "st' \<in> set (ms (Cls k) st) \<longleftrightarrow>
    (\<exists>x xs. st_rest st = x # xs \<and> cls_mem k x \<and> st' = advance 1 st)"
  by (cases "st_rest st") auto

lemma ms_ClsI_mem: "st' \<in> set (ms (ClsI k) st) \<longleftrightarrow>
    (\<exists>x xs. st_rest st = x # xs \<and> cls_mem_i k x \<and> st' = advance 1 st)"
  by (cases "st_rest st") auto

lemma ms_Seq_mem: "st' \<in> set (ms (Seq a b) st) \<longleftrightarrow> (\<exists>m \<in> set (ms a st). st' \<in> set (ms b m))"
  by auto

lemma ms_Alt_mem: "st' \<in> set (ms (Alt a b) st) \<longleftrightarrow> st' \<in> set (ms a st) \<or> st' \<in> set (ms b st)"
  by simp

lemma ms_Group_mem: "st' \<in> set (ms (Group i r) st) \<longleftrightarrow> (\<exists>m \<in> set (ms r st). st' = set_cap i st m)"
  by auto

lemma ms_Look_mem: "st' \<in> set (ms (Look r) st) \<longleftrightarrow>
    (\<exists>m ms'. ms r st = m # ms' \<and> st' = MState (st_pos st) (st_rest st) (st_caps m))"
  by (cases "ms r st") auto


lemma ms_Star_mem: "st' \<in> set (ms (Star r) st) \<longleftrightarrow>
    st' = st \<or> (\<exists>m \<in> set (ms r st). length (st_rest m) < length (st_rest st) \<and> st' \<in> set (ms (Star r) m))"
  by (subst ms.simps) (auto simp del: ms.simps split: if_splits)

lemma ms_LazyStar_mem: "st' \<in> set (ms (LazyStar r) st) \<longleftrightarrow>
    st' = st \<or> (\<exists>m \<in> set (ms r st). length (st_rest m) < length (st_rest st) \<and> st' \<in> set (ms (LazyStar r) m))"
  by (subst ms.simps) (auto simp del: ms.simps split: if_splits)

declare ms.simps(8,9) [simp del]

lemma ms_consumes: "st' \<in> set (ms r st) \<Longrightarrow> consumes st st'"
proof (induction r st arbitrary: st' rule: ms.induct)
  case (1 w st)
  then show ?case unfolding ms_Lit_mem by (auto intro!: consumes_advance take_eq_len)
next
  case (2 w st)
  then show ?case unfolding ms_LitI_mem by (auto intro!: consumes_advance take_canon_len)
next
  case (3 k st)
  then show ?case unfolding ms_Cls_mem by (auto intro!: consumes_advance)
next
  case (4 k st)
  then show ?case unfolding ms_ClsI_mem by (auto intro!: consumes_advance)
next
  case (5 st)
  then show ?case by (simp add: consumes_refl)
next
  case (6 a b st)
  from "6.prems" obtain m where m: "m \<in> set (ms a st)" "st' \<in> set (ms b m)"
    unfolding ms_Seq_mem by blast
  show ?case by (rule consumes_trans[OF "6.IH"(1)[OF m(1)] "6.IH"(2)[OF m(1) m(2)]])
next
  case (7 a b st)
  from "7.prems" have "st' \<in> set (ms a st) \<or> st' \<in> set (ms b st)" by simp
  then show ?case using "7.IH" by blast
next
  case (8 r st)
  from "8.prems" consider "st' = st"
    | m where "m \<in> set (ms r st)" "length (st_rest m) < length (st_rest st)" "st' \<in> set (ms (Star r) m)"
    unfolding ms_Star_mem[of st' r st] by blast
  then show ?case
  proof cases
    case 1
    then show ?thesis by (simp add: consumes_refl)
  next
    case 2
    show ?thesis by (rule consumes_trans[OF "8.IH"(1)[OF 2(1)] "8.IH"(2)[OF 2(1) 2(2) 2(3)]])
  qed
next
  case (9 r st)
  from "9.prems" consider "st' = st"
    | m where "m \<in> set (ms r st)" "length (st_rest m) < length (st_rest st)" "st' \<in> set (ms (LazyStar r) m)"
    unfolding ms_LazyStar_mem[of st' r st] by blast
  then show ?case
  proof cases
    case 1
    then show ?thesis by (simp add: consumes_refl)
  next
    case 2
    show ?thesis by (rule consumes_trans[OF "9.IH"(1)[OF 2(1)] "9.IH"(2)[OF 2(1) 2(2) 2(3)]])
  qed
next
  case (10 i r st)
  from "10.prems" obtain m where m: "m \<in> set (ms r st)" "st' = set_cap i st m"
    unfolding ms_Group_mem by blast
  from "10.IH"[OF m(1)] show ?case by (simp add: consumes_def m(2))
next
  case (11 r st)
  from "11.prems" have "st_pos st' = st_pos st \<and> st_rest st' = st_rest st"
    unfolding ms_Look_mem by auto
  then show ?case by (simp add: consumes_def)
next
  case (12 st)
  then show ?case by (auto split: if_splits simp: consumes_refl)
next
  case (13 st)
  then show ?case by (auto split: if_splits simp: consumes_refl)
qed

lemma ms_caps_other: "st' \<in> set (ms r st) \<Longrightarrow> i \<notin> groups r \<Longrightarrow> st_caps st' i = st_caps st i"
proof (induction r st arbitrary: st' rule: ms.induct)
  case (6 a b st)
  from "6.prems" obtain m where m: "m \<in> set (ms a st)" "st' \<in> set (ms b m)"
    unfolding ms_Seq_mem by blast
  from "6.prems"(2) have "i \<notin> groups a" "i \<notin> groups b" by simp_all
  then show ?case using "6.IH"(1)[OF m(1)] "6.IH"(2)[OF m(1) m(2)] by simp
next
  case (7 a b st)
  from "7.prems" have "st' \<in> set (ms a st) \<or> st' \<in> set (ms b st)" "i \<notin> groups a" "i \<notin> groups b"
    by simp_all
  then show ?case using "7.IH" by blast
next
  case (8 r st)
  from "8.prems"(1) consider "st' = st"
    | m where "m \<in> set (ms r st)" "length (st_rest m) < length (st_rest st)" "st' \<in> set (ms (Star r) m)"
    unfolding ms_Star_mem[of st' r st] by blast
  then show ?case
  proof cases
    case 1
    then show ?thesis by simp
  next
    case 2
    from "8.prems"(2) have g: "i \<notin> groups r" "i \<notin> groups (Star r)" by simp_all
    show ?thesis using "8.IH"(1)[OF 2(1) g(1)] "8.IH"(2)[OF 2(1) 2(2) 2(3) g(2)] by simp
  qed
next
  case (9 r st)
  from "9.prems"(1) consider "st' = st"
    | m where "m \<in> set (ms r st)" "length (st_rest m) < length (st_rest st)" "st' \<in> set (ms (LazyStar r) m)"
    unfolding ms_LazyStar_mem[of st' r st] by blast
  then show ?case
  proof cases
    case 1
    then show ?thesis by simp
  next
    case 2
    from "9.prems"(2) have g: "i \<notin> groups r" "i \<notin> groups (LazyStar r)" by simp_all
    show ?thesis using "9.IH"(1)[OF 2(1) g(1)] "9.IH"(2)[OF 2(1) 2(2) 2(3) g(2)] by simp
  qed
next
  case (10 j r st)
  from "10.prems"(1) obtain m where m: "m \<in> set (ms r st)" "st' = set_cap j st m"
    unfolding ms_Group_mem by blast
  from "10.prems"(2) have g: "i \<noteq> j" "i \<notin> groups r" by auto
  show ?case using "10.IH"[OF m(1) g(2)] g(1) by (simp add: m(2))
next
  case (11 r st)
  from "11.prems"(1) obtain m ms' where m: "ms r st = m # ms'" "st' = MState (st_pos st) (st_rest st) (st_caps m)"
    unfolding ms_Look_mem by blast
  from m(1) have "m \<in> set (ms r st)" by simp
  from "11.IH"[OF this] "11.prems"(2) show ?case by (simp add: m(2))
qed (auto simp: ms_Cls_mem ms_ClsI_mem split: if_splits)

lemma ms_caps_set:
  "st' \<in> set (ms r st) \<Longrightarrow> sets_cap i r \<or> st_caps st i \<noteq> None \<Longrightarrow> st_caps st' i \<noteq> None"
proof (induction r st arbitrary: st' rule: ms.induct)
  case (6 a b st)
  from "6.prems" obtain m where m: "m \<in> set (ms a st)" "st' \<in> set (ms b m)"
    unfolding ms_Seq_mem by blast
  from "6.prems"(2) consider "sets_cap i a \<or> st_caps st i \<noteq> None" | "sets_cap i b" by auto
  then show ?case
  proof cases
    case 1
    from "6.IH"(1)[OF m(1) 1] have "st_caps m i \<noteq> None" .
    then show ?thesis using "6.IH"(2)[OF m(1) m(2)] by blast
  next
    case 2
    then show ?thesis using "6.IH"(2)[OF m(1) m(2)] by blast
  qed
next
  case (7 a b st)
  from "7.prems" have "st' \<in> set (ms a st) \<or> st' \<in> set (ms b st)"
    "sets_cap i a \<or> st_caps st i \<noteq> None" "sets_cap i b \<or> st_caps st i \<noteq> None"
    by auto
  then show ?case using "7.IH" by blast
next
  case (8 r st)
  from "8.prems"(1) consider "st' = st"
    | m where "m \<in> set (ms r st)" "length (st_rest m) < length (st_rest st)" "st' \<in> set (ms (Star r) m)"
    unfolding ms_Star_mem[of st' r st] by blast
  then show ?case
  proof cases
    case 1
    then show ?thesis using "8.prems"(2) by simp
  next
    case 2
    from "8.prems"(2) have d: "st_caps st i \<noteq> None" by simp
    from "8.IH"(1)[OF 2(1)] d have "st_caps m i \<noteq> None" by blast
    then show ?thesis using "8.IH"(2)[OF 2(1) 2(2) 2(3)] by blast
  qed
next
  case (9 r st)
  from "9.prems"(1) consider "st' = st"
    | m where "m \<in> set (ms r st)" "length (st_rest m) < length (st_rest st)" "st' \<in> set (ms (LazyStar r) m)"
    unfolding ms_LazyStar_mem[of st' r st] by blast
  then show ?case
  proof cases
    case 1
    then show ?thesis using "9.prems"(2) by simp
  next
    case 2
    from "9.prems"(2) have d: "st_caps st i \<noteq> None" by simp
    from "9.IH"(1)[OF 2(1)] d have "st_caps m i \<noteq> None" by blast
    then show ?thesis using "9.IH"(2)[OF 2(1) 2(2) 2(3)] by blast
  qed
next
  case (10 j r st)
  from "10.prems"(1) obtain m where m: "m \<in> set (ms r st)" "st' = set_cap j st m"
    unfolding ms_Group_mem by blast
  show ?case
  proof (cases "i = j")
    case True
    then show ?thesis by (simp add: m(2))
  next
    case False
    with "10.prems"(2) have "sets_cap i r \<or> st_caps st i \<noteq> None" by simp
    from "10.IH"[OF m(1) this] False show ?thesis by (simp add: m(2))
  qed
next
  case (11 r st)
  from "11.prems"(1) obtain m ms' where m: "ms r st = m # ms'" "st' = MState (st_pos st) (st_rest st) (st_caps m)"
    unfolding ms_Look_mem by blast
  from m(1) have "m \<in> set (ms r st)" by simp
  from "11.IH"[OF this] "11.prems"(2) show ?case by (simp add: m(2))
qed (auto simp: ms_Cls_mem ms_ClsI_mem split: if_splits)

lemmas ev_chars = str_def is_space_def is_digit_def is_word_def is_upper_def is_lower_def
  is_line_terminator_def canon_def lower_def cls_mem_i_def toLowerCase_def

lemmas ev_regex = ms.simps(8,9) no_caps_def advance_def set_cap_def Plus_def Opt_def digit2_def digit4_def
  ordinal_def digits1_def spaces0_def spaces1_def word1_def rest_of_line_def
  match_re_def match_all_def mk_match_def remove_first_def split_re_def

lemmas ev_fault = index_def receiver_def element_def interpolate_def bind_def

lemmas ev_date = ggRe_def recurringRe_def jpRe_def krRe_def monthNames_def inheritedProperties_def monthMap_def time_suffix_def
  ggRule_def recurringRule_def digitRule_def normalizeDateString_def padStart2_def show_int_def

lemmas ev_fields = colonFieldRe_def bracketFieldRe_def trimmedCapture_def parseField_def
  multiFieldRe_def secondPiece_def parseMultipleFields_def trim_def startsWith_def

lemmas ev_ns = nsBlockReA_def nsBlockReB_def multilinePatterns_def firstWord_def blockServers_def
  colonPatterns_def nsColonRe_def trailingDotRe_def colonServer_def jpNsRe_def jpNsLabelRe_def
  bracketServer_def nsBracket_def parseNameservers_def

lemmas ev_status = statusBlockRe_def truthyArray_def orArray_def statusBlock_def parseStatus_def

lemma consumesD: "consumes st st' \<Longrightarrow> st_rest st = consumed st st' @ st_rest st' \<and> st_pos st \<le> st_pos st'"
  unfolding consumes_def consumed_def by auto

lemma consumed_trans:
  assumes "consumes a b" and "consumes b c"
  shows "consumed a c = consumed a b @ consumed b c"
proof -
  from assms obtain u v where u: "st_rest a = u @ st_rest b" "st_pos b = st_pos a + length u"
    and v: "st_rest b = v @ st_rest c" "st_pos c = st_pos b + length v"
    unfolding consumes_def by blast
  show ?thesis unfolding consumed_def using u v by simp
qed

lemma canon_colon: "canon x = 58 \<Longrightarrow> x = 58"
  by (auto simp: canon_def is_lower_def split: if_splits)

lemma canon_58: "canon 58 = 58"
  by (simp add: canon_def is_lower_def)

lemma map_canon_colon: "map canon xs = map canon ys \<Longrightarrow> 58 \<in> set ys \<Longrightarrow> 58 \<in> set xs"
proof (induction xs arbitrary: ys)
  case Nil
  then show ?case by simp
next
  case (Cons x xs)
  then obtain y ys' where ys: "ys = y # ys'" by (cases ys) auto
  with Cons.prems have e: "canon x = canon y" "map canon xs = map canon ys'" by simp_all
  show ?case
  proof (cases "y = 58")
    case True
    with e(1) have "x = 58" by (simp add: canon_58 canon_colon)
    then show ?thesis by simp
  next
    case False
    with Cons.prems(2) ys have "58 \<in> set ys'" by simp
    from Cons.IH[OF e(2) this] show ?thesis by simp
  qed
qed

lemma ms_needs_colon: "st' \<in> set (ms r st) \<Longrightarrow> needs_colon r \<Longrightarrow> 58 \<in> set (consumed st st')"
proof (induction r arbitrary: st st')
  case (Lit w)
  then show ?case unfolding ms_Lit_mem consumed_def by auto
next
  case (LitI w)
  then have h: "map canon (take (length w) (st_rest st)) = map canon w" "st' = advance (length w) st"
    "58 \<in> set w"
    unfolding ms_LitI_mem by auto
  from map_canon_colon[OF h(1) h(3)] show ?case unfolding consumed_def by (simp add: h(2))
next
  case (Seq a b)
  from Seq.prems(1) obtain m where m: "m \<in> set (ms a st)" "st' \<in> set (ms b m)"
    unfolding ms_Seq_mem by blast
  have c: "consumed st st' = consumed st m @ consumed m st'"
    by (rule consumed_trans[OF ms_consumes[OF m(1)] ms_consumes[OF m(2)]])
  from Seq.prems(2) consider "needs_colon a" | "needs_colon b" by auto
  then show ?case
  proof cases
    case 1
    from Seq.IH(1)[OF m(1) 1] show ?thesis by (simp add: c)
  next
    case 2
    from Seq.IH(2)[OF m(2) 2] show ?thesis by (simp add: c)
  qed
next
  case (Alt a b)
  from Alt.prems have "st' \<in> set (ms a st) \<or> st' \<in> set (ms b st)" "needs_colon a" "needs_colon b"
    by simp_all
  then show ?case using Alt.IH by blast
next
  case (Group i r)
  from Group.prems(1) obtain m where m: "m \<in> set (ms r st)" "st' = set_cap i st m"
    unfolding ms_Group_mem by blast
  from Group.prems(2) have "needs_colon r" by simp
  from Group.IH[OF m(1) this] show ?case by (simp add: consumed_def m(2))
qed simp_all

lemma search_hit: "ms re (MState p s no_caps) = st # sts \<Longrightarrow> search re p s = Some (mk_match p s st)"
  by (cases s) simp_all

lemma search_SomeD:
  "search re p s = Some m \<Longrightarrow>
   \<exists>k st sts. k \<le> length s \<and> ms re (MState (p + k) (drop k s) no_caps) = st # sts
              \<and> m = mk_match (p + k) (drop k s) st"
proof (induction s arbitrary: p)
  case Nil
  then obtain st sts where "ms re (MState p [] no_caps) = st # sts" "m = mk_match p [] st"
    by (auto split: list.splits)
  then show ?case by (intro exI[of _ 0] exI[of _ st] exI[of _ sts]) simp
next
  case (Cons x xs)
  show ?case
  proof (cases "ms re (MState p (x # xs) no_caps)")
    case Nil
    with Cons.prems have "search re (Suc p) xs = Some m" by simp
    from Cons.IH[OF this] obtain k st sts where k: "k \<le> length xs"
      "ms re (MState (Suc p + k) (drop k xs) no_caps) = st # sts" "m = mk_match (Suc p + k) (drop k xs) st"
      by blast
    then show ?thesis by (intro exI[of _ "Suc k"] exI[of _ st] exI[of _ sts]) simp
  next
    case (Cons st sts)
    with Cons.prems have "m = mk_match p (x # xs) st" by simp
    with Cons show ?thesis by (intro exI[of _ 0] exI[of _ st] exI[of _ sts]) simp
  qed
qed

lemma search_NoneI:
  "(\<And>k. k \<le> length s \<Longrightarrow> ms re (MState (p + k) (drop k s) no_caps) = []) \<Longrightarrow> search re p s = None"
proof (induction s arbitrary: p)
  case Nil
  from Nil[of 0] show ?case by simp
next
  case (Cons x xs)
  from Cons.prems[of 0] have h: "ms re (MState p (x # xs) no_caps) = []" by simp
  have "search re (Suc p) xs = None"
  proof (rule Cons.IH)
    fix k assume "k \<le> length xs"
    then show "ms re (MState (Suc p + k) (drop k xs) no_caps) = []"
      using Cons.prems[of "Suc k"] by simp
  qed
  with h show ?case by simp
qed

lemma scan_all_mem:
  "w \<in> set (scan_all re skip p s) \<Longrightarrow>
   \<exists>k st sts. k \<le> length s \<and> ms re (MState (p + k) (drop k s) no_caps) = st # sts
              \<and> w = consumed (MState (p + k) (drop k s) no_caps) st"
proof (induction s arbitrary: skip p)
  case Nil
  note prem = Nil
  show ?case
  proof (cases "ms re (MState p [] no_caps)")
    case Nil
    with prem show ?thesis by (simp split: if_splits)
  next
    case (Cons st sts)
    with prem have "w = []" by (simp split: if_splits)
    with Cons show ?thesis by (intro exI[of _ 0] exI[of _ st] exI[of _ sts]) (simp add: consumed_def)
  qed
next
  case (Cons x xs)
  have step: "\<exists>k st sts. k \<le> length (x # xs) \<and> ms re (MState (p + k) (drop k (x # xs)) no_caps) = st # sts
              \<and> w = consumed (MState (p + k) (drop k (x # xs)) no_caps) st"
    if "w \<in> set (scan_all re sk (Suc p) xs)" for sk
  proof -
    from Cons.IH[OF that] obtain k st sts where k: "k \<le> length xs"
      "ms re (MState (Suc p + k) (drop k xs) no_caps) = st # sts"
      "w = consumed (MState (Suc p + k) (drop k xs) no_caps) st"
      by blast
    then show ?thesis by (intro exI[of _ "Suc k"] exI[of _ st] exI[of _ sts]) simp
  qed
  show ?case
  proof (cases "0 < skip")
    case True
    with Cons.prems have "w \<in> set (scan_all re (skip - 1) (Suc p) xs)" by simp
    then show ?thesis by (rule step)
  next
    case False
    show ?thesis
    proof (cases "ms re (MState p (x # xs) no_caps)")
      case Nil
      with False Cons.prems have "w \<in> set (scan_all re 0 (Suc p) xs)" by simp
      then show ?thesis by (rule step)
    next
      case (Cons st sts)
      with False Cons.prems consider "w = take (st_pos st - p) (x # xs)"
        | "w \<in> set (scan_all re (st_pos st - p - 1) (Suc p) xs)" by auto
      then show ?thesis
      proof cases
        case 1
        with Cons show ?thesis
          by (intro exI[of _ 0] exI[of _ st] exI[of _ sts]) (simp add: consumed_def)
      next
        case 2
        then show ?thesis by (rule step)
      qed
    qed
  qed
qed

lemma split_on_nonempty: "split_on c s \<noteq> []"
  by (induction s) (auto split: list.splits)

lemma split_on_two: "c \<in> set s \<Longrightarrow> 1 < length (split_on c s)"
proof (induction s)
  case Nil
  then show ?case by simp
next
  case (Cons x xs)
  show ?case
  proof (cases "x = c")
    case True
    then show ?thesis using split_on_nonempty[of c xs] by (cases "split_on c xs") simp_all
  next
    case False
    with Cons.prems have "c \<in> set xs" by simp
    from Cons.IH[OF this] False show ?thesis by (cases "split_on c xs") simp_all
  qed
qed

lemma secondPiece_total: "58 \<in> set m \<Longrightarrow> \<exists>v. secondPiece m = Inr v"
  using split_on_two[of 58 m] by (simp add: secondPiece_def index_def receiver_def bind_def)

lemma split_loop_nonempty: "split_loop re skip q seg s \<noteq> []"
  by (induction s arbitrary: skip q seg) (auto split: list.splits)

lemma ms_spaces1_empty: "ms spaces1 (MState p [] c) = []"
  by (simp add: spaces1_def Plus_def)

lemma split_spaces_nonempty: "split_re spaces1 s \<noteq> []"
  by (simp add: split_re_def ms_spaces1_empty split_loop_nonempty del: split_loop.simps)

lemma firstWord_total: "\<exists>w. firstWord line = Some w"
  using split_spaces_nonempty[of line] by (simp add: firstWord_def index_def)

lemma bind_Inr: "bind (Inr x) f = f x"
  by (simp add: bind_def)

lemma bind_Inl: "bind (Inl e) f = Inl e"
  by (simp add: bind_def)

lemma bind_total: "m = Inr x \<Longrightarrow> bind m f = f x"
  by (simp add: bind_def)

lemma map_r_total:
  "(\<And>x. x \<in> set xs \<Longrightarrow> \<exists>y. f x = Inr y) \<Longrightarrow> \<exists>ys. map_r f xs = Inr ys \<and> length ys = length xs"
proof (induction xs)
  case Nil
  then show ?case by simp
next
  case (Cons x xs)
  from Cons.prems[of x] obtain y where y: "f x = Inr y" by auto
  from Cons.IH Cons.prems obtain ys where ys: "map_r f xs = Inr ys" "length ys = length xs" by auto
  show ?case by (simp add: y ys bind_Inr)
qed

lemma map_r_length: "map_r f xs = Inr ys \<Longrightarrow> length ys = length xs"
proof (induction xs arbitrary: ys)
  case Nil
  then show ?case by simp
next
  case (Cons x xs)
  then show ?case by (auto simp: bind_def split: sum.splits)
qed

lemma m_caps_mk_match [simp]: "m_caps (mk_match p s st) = st_caps st"
  by (simp add: mk_match_def)

lemma m_index_mk_match [simp]: "m_index (mk_match p s st) = p"
  by (simp add: mk_match_def)

lemma m_text_mk_match [simp]: "m_text (mk_match p s st) = take (st_pos st - p) s"
  by (simp add: mk_match_def)

lemma match_caps_set:
  assumes "match_re re s = Some m" and "sets_cap i re"
  shows "\<exists>v. m_caps m i = Some v"
proof -
  from assms(1) obtain k st sts where k: "ms re (MState (0 + k) (drop k s) no_caps) = st # sts"
    "m = mk_match (0 + k) (drop k s) st"
    unfolding match_re_def using search_SomeD by blast
  from k(1) have "st \<in> set (ms re (MState (0 + k) (drop k s) no_caps))" by simp
  from ms_caps_set[OF this, of i] assms(2) have "st_caps st i \<noteq> None" by blast
  then show ?thesis by (auto simp: k(2))
qed

lemma match_all_colon:
  assumes "w \<in> set (match_all re s)" and "needs_colon re"
  shows "58 \<in> set w"
proof -
  from assms(1) obtain k st sts where k: "ms re (MState (0 + k) (drop k s) no_caps) = st # sts"
    "w = consumed (MState (0 + k) (drop k s) no_caps) st"
    unfolding match_all_def using scan_all_mem by blast
  from k(1) have "st \<in> set (ms re (MState (0 + k) (drop k s) no_caps))" by simp
  from ms_needs_colon[OF this assms(2)] show ?thesis by (simp add: k(2))
qed

lemma sets_cap_res:
  "sets_cap 1 (colonFieldRe f)" "sets_cap 1 (bracketFieldRe f)" "sets_cap 1 (keyRe f)"
  "sets_cap 1 (keyReSp f)" "sets_cap 1 (labelRe f)" "sets_cap 1 registeredOnRe" "sets_cap 1 feeDueRe"
  "sets_cap 1 nsBlockReA" "sets_cap 1 nsBlockReB" "sets_cap 1 statusBlockRe"
  "sets_cap 1 ggRe" "sets_cap 2 ggRe" "sets_cap 3 ggRe" "sets_cap 1 recurringRe" "sets_cap 2 recurringRe"
  "sets_cap 1 jpRe" "sets_cap 2 jpRe" "sets_cap 3 jpRe" "sets_cap 1 krRe" "sets_cap 2 krRe" "sets_cap 3 krRe"
  by (simp_all add: colonFieldRe_def bracketFieldRe_def keyRe_def keyReSp_def labelRe_def
      registeredOnRe_def feeDueRe_def nsBlockReA_def nsBlockReB_def statusBlockRe_def
      ggRe_def recurringRe_def jpRe_def krRe_def)

lemma needs_colon_res:
  "needs_colon (multiFieldRe f)" "needs_colon (nsColonRe f)"
  by (simp_all add: multiFieldRe_def nsColonRe_def str_def)

lemma dropWhile_rev_prefix: "\<exists>t. u = rev (dropWhile P (rev u)) @ t"
proof -
  have "rev u = takeWhile P (rev u) @ dropWhile P (rev u)" by simp
  then have "rev (rev u) = rev (takeWhile P (rev u) @ dropWhile P (rev u))" by (rule arg_cong)
  then have "u = rev (dropWhile P (rev u)) @ rev (takeWhile P (rev u))"
    by (simp only: rev_rev_ident rev_append)
  then show ?thesis by blast
qed

lemma trim_idem: "trim (trim s) = trim s"
proof -
  define u where "u = dropWhile is_space s"
  define t where "t = rev (dropWhile is_space (rev u))"
  have t: "trim s = t" by (simp add: trim_def t_def u_def)
  have tail_ok: "dropWhile is_space (rev t) = rev t" by (simp add: t_def dropWhile_idem)
  have front: "dropWhile is_space t = t"
  proof (cases t)
    case Nil
    then show ?thesis by simp
  next
    case (Cons a t')
    from dropWhile_rev_prefix[of u is_space] obtain r where "u = t @ r" unfolding t_def by blast
    with Cons have u: "u = a # t' @ r" by simp
    then have "u \<noteq> []" by simp
    then have "\<not> is_space (hd u)" unfolding u_def by (rule hd_dropWhile)
    with u have "\<not> is_space a" by simp
    with Cons show ?thesis by simp
  qed
  show ?thesis unfolding t by (simp add: trim_def front tail_ok)
qed

lemma trimmedCapture_total:
  "m_caps m 1 = Some v \<Longrightarrow> trimmedCapture m = Inr (trim v)"
  by (simp add: trimmedCapture_def receiver_def bind_def)

lemma parseFieldLoop_total:
  "\<exists>r. parseFieldLoop t fs = Inr r \<and> opt_trimmed r"
proof (induction fs)
  case Nil
  then show ?case by (simp add: opt_trimmed_def)
next
  case (Cons f fs)
  show ?case
  proof (cases "match_re (colonFieldRe f) t")
    case (Some m)
    from match_caps_set[OF Some sets_cap_res(1)] obtain v where "m_caps m 1 = Some v" by blast
    from trimmedCapture_total[OF this] Some show ?thesis
      by (simp add: bind_Inr opt_trimmed_def trim_idem)
  next
    case None
    note c = None
    show ?thesis
    proof (cases "match_re (bracketFieldRe f) t")
      case (Some m)
      from match_caps_set[OF Some sets_cap_res(2)] obtain v where "m_caps m 1 = Some v" by blast
      from trimmedCapture_total[OF this] Some c show ?thesis
        by (simp add: bind_Inr opt_trimmed_def trim_idem)
    next
      case None
      with c Cons.IH show ?thesis by simp
    qed
  qed
qed

lemma parseField_total: "\<exists>r. parseField t f alts = Inr r \<and> opt_trimmed r"
  unfolding parseField_def by (rule parseFieldLoop_total)

lemma parseMultipleFields_total: "\<exists>r. parseMultipleFields t f = Inr r"
proof (cases "match_all (multiFieldRe f) t")
  case Nil
  then show ?thesis by (simp add: parseMultipleFields_def)
next
  case (Cons m ms')
  have "\<exists>ys. map_r secondPiece (m # ms') = Inr ys \<and> length ys = length (m # ms')"
  proof (rule map_r_total)
    fix x assume "x \<in> set (m # ms')"
    with Cons have "x \<in> set (match_all (multiFieldRe f) t)" by simp
    from match_all_colon[OF this needs_colon_res(1)] have "58 \<in> set x" .
    then show "\<exists>y. secondPiece x = Inr y" by (rule secondPiece_total)
  qed
  with Cons show ?thesis by (auto simp: parseMultipleFields_def)
qed

lemma blockServers_total: "\<exists>servers. blockServers body = Inr servers"
proof -
  have "\<exists>ys. map_r (\<lambda>line. element (firstWord line))
            (filter (\<lambda>line. line \<noteq> [] \<and> \<not> startsWith line (str ''WHOIS'')) (map trim (split_on 10 body))) = Inr ys
          \<and> length ys = length (filter (\<lambda>line. line \<noteq> [] \<and> \<not> startsWith line (str ''WHOIS'')) (map trim (split_on 10 body)))"
  proof (rule map_r_total)
    fix x
    from firstWord_total[of x] obtain w where "firstWord x = Some w" by blast
    then show "\<exists>y. element (firstWord x) = Inr y" by (simp add: element_def)
  qed
  then show ?thesis unfolding blockServers_def by blast
qed

lemma nsBlocks_total:
  "list_all (sets_cap 1) ps \<Longrightarrow> \<exists>r. nsBlocks t ps = Inr r \<and> opt_nonempty r"
proof (induction ps)
  case Nil
  then show ?case by (simp add: opt_nonempty_def)
next
  case (Cons p ps)
  then have p: "sets_cap 1 p" and ih: "\<exists>r. nsBlocks t ps = Inr r \<and> opt_nonempty r" by simp_all
  show ?case
  proof (cases "match_re p t")
    case None
    with ih show ?thesis by simp
  next
    case (Some m)
    from match_caps_set[OF Some p] obtain body where b: "m_caps m 1 = Some body" by blast
    from blockServers_total[of body] obtain servers where s: "blockServers body = Inr servers" by blast
    show ?thesis
    proof (cases "0 < length servers")
      case True
      with Some b s show ?thesis by (simp add: receiver_def bind_Inr opt_nonempty_def)
    next
      case False
      with Some b s ih show ?thesis by (simp add: receiver_def bind_Inr)
    qed
  qed
qed

lemma colonServer_total: "58 \<in> set m \<Longrightarrow> \<exists>v. colonServer m = Inr v"
proof -
  assume "58 \<in> set m"
  from secondPiece_total[OF this] obtain v where v: "secondPiece m = Inr v" by blast
  from firstWord_total[of v] obtain w where w: "firstWord v = Some w" by blast
  show ?thesis by (simp add: colonServer_def v w bind_Inr receiver_def)
qed

lemma nsColon_total: "\<exists>r. nsColon t fs = Inr r \<and> opt_nonempty r"
proof (induction fs)
  case Nil
  then show ?case by (simp add: opt_nonempty_def)
next
  case (Cons f fs)
  show ?case
  proof (cases "match_all (nsColonRe f) t")
    case Nil
    with Cons.IH show ?thesis by simp
  next
    case (Cons m ms')
    have "\<exists>ys. map_r colonServer (m # ms') = Inr ys \<and> length ys = length (m # ms')"
    proof (rule map_r_total)
      fix x assume "x \<in> set (m # ms')"
      with Cons have "x \<in> set (match_all (nsColonRe f) t)" by simp
      from match_all_colon[OF this needs_colon_res(2)] show "\<exists>y. colonServer x = Inr y"
        by (rule colonServer_total)
    qed
    then obtain ys where "map_r colonServer (m # ms') = Inr ys" "length ys = length (m # ms')" by blast
    with Cons show ?thesis by (simp add: bind_Inr opt_nonempty_def del: map_r.simps)
  qed
qed

lemma bracketServer_total: "\<exists>v. bracketServer m = Inr v"
proof -
  from firstWord_total[of "trim (remove_first jpNsLabelRe m)"] obtain w
    where "firstWord (trim (remove_first jpNsLabelRe m)) = Some w" by blast
  then show ?thesis by (simp add: bracketServer_def element_def)
qed

lemma nsBracket_total: "\<exists>r. nsBracket t = Inr r \<and> opt_nonempty r"
proof (cases "match_all jpNsRe t")
  case Nil
  then show ?thesis by (simp add: nsBracket_def opt_nonempty_def)
next
  case (Cons m ms')
  have "\<exists>ys. map_r bracketServer (m # ms') = Inr ys \<and> length ys = length (m # ms')"
    by (rule map_r_total) (rule bracketServer_total)
  then obtain ys where "map_r bracketServer (m # ms') = Inr ys" "length ys = length (m # ms')" by blast
  with Cons show ?thesis by (simp add: nsBracket_def bind_Inr opt_nonempty_def del: map_r.simps)
qed

lemma parseNameservers_total: "\<exists>r. parseNameservers t = Inr r \<and> opt_nonempty r"
proof -
  have "list_all (sets_cap 1) multilinePatterns"
    using sets_cap_res(8,9) by (simp add: multilinePatterns_def)
  from nsBlocks_total[OF this, of t] obtain b where b: "nsBlocks t multilinePatterns = Inr b" "opt_nonempty b"
    by blast
  from nsColon_total[of t colonPatterns] obtain c where c: "nsColon t colonPatterns = Inr c" "opt_nonempty c"
    by blast
  from nsBracket_total[of t] obtain k where k: "nsBracket t = Inr k" "opt_nonempty k" by blast
  show ?thesis
  proof (cases b)
    case (Some servers)
    with b show ?thesis by (simp add: parseNameservers_def bind_Inr)
  next
    case None
    note bn = None
    show ?thesis
    proof (cases c)
      case (Some servers)
      with b bn c show ?thesis by (simp add: parseNameservers_def bind_Inr)
    next
      case None
      with b bn c k show ?thesis by (simp add: parseNameservers_def bind_Inr)
    qed
  qed
qed

lemma statusBlock_total: "\<exists>r. statusBlock t = Inr r"
proof (cases "match_re statusBlockRe t")
  case None
  then show ?thesis by (simp add: statusBlock_def)
next
  case (Some m)
  from match_caps_set[OF Some sets_cap_res(10)] obtain body where "m_caps m 1 = Some body" by blast
  with Some show ?thesis by (simp add: statusBlock_def receiver_def bind_Inr)
qed

lemma parseStatus_total: "\<exists>r. parseStatus t = Inr r"
proof -
  from statusBlock_total[of t] obtain b where b: "statusBlock t = Inr b" by blast
  from parseMultipleFields_total[of t "str ''Domain Status''"] obtain a
    where a: "parseMultipleFields t (str ''Domain Status'') = Inr a" by blast
  show ?thesis
    by (cases b) (simp_all add: parseStatus_def b a bind_Inr orArray_def truthyArray_def)
qed

lemma digit_not_space: "is_digit c \<Longrightarrow> \<not> is_space c"
  by (auto simp: is_digit_def is_space_def)

lemma ms_Cls_step:
  assumes "m \<in> set (ms (Cls k) st)"
  obtains x where "st_rest st = x # st_rest m" "cls_mem k x" "st_pos m = Suc (st_pos st)"
    "st_caps m = st_caps st"
proof -
  from assms obtain x xs where x: "st_rest st = x # xs" "cls_mem k x" "m = advance 1 st"
    unfolding ms_Cls_mem by blast
  show ?thesis by (rule that[of x]) (simp_all add: x)
qed

lemma ms_digit2_mem:
  assumes "m \<in> set (ms digit2 st)"
  obtains a b where "st_rest st = a # b # st_rest m" "is_digit a" "is_digit b"
    "st_pos m = st_pos st + 2" "st_caps m = st_caps st"
proof -
  from assms obtain m1 where m: "m1 \<in> set (ms (Cls CDigit) st)" "m \<in> set (ms (Cls CDigit) m1)"
    unfolding digit2_def ms_Seq_mem by blast
  from m(1) obtain a where a: "st_rest st = a # st_rest m1" "cls_mem CDigit a"
    "st_pos m1 = Suc (st_pos st)" "st_caps m1 = st_caps st" by (rule ms_Cls_step)
  from m(2) obtain b where b: "st_rest m1 = b # st_rest m" "cls_mem CDigit b"
    "st_pos m = Suc (st_pos m1)" "st_caps m = st_caps m1" by (rule ms_Cls_step)
  show ?thesis by (rule that[of a b]) (use a b in simp_all)
qed

lemma ms_digit4_mem:
  assumes "m \<in> set (ms digit4 st)"
  obtains a b c d where "st_rest st = a # b # c # d # st_rest m" "is_digit a" "is_digit b"
    "is_digit c" "is_digit d" "st_pos m = st_pos st + 4" "st_caps m = st_caps st"
proof -
  from assms obtain m1 m2 m3 where m: "m1 \<in> set (ms (Cls CDigit) st)" "m2 \<in> set (ms (Cls CDigit) m1)"
    "m3 \<in> set (ms (Cls CDigit) m2)" "m \<in> set (ms (Cls CDigit) m3)"
    unfolding digit4_def ms_Seq_mem by blast
  from m(1) obtain a where a: "st_rest st = a # st_rest m1" "cls_mem CDigit a"
    "st_pos m1 = Suc (st_pos st)" "st_caps m1 = st_caps st" by (rule ms_Cls_step)
  from m(2) obtain b where b: "st_rest m1 = b # st_rest m2" "cls_mem CDigit b"
    "st_pos m2 = Suc (st_pos m1)" "st_caps m2 = st_caps m1" by (rule ms_Cls_step)
  from m(3) obtain c where c: "st_rest m2 = c # st_rest m3" "cls_mem CDigit c"
    "st_pos m3 = Suc (st_pos m2)" "st_caps m3 = st_caps m2" by (rule ms_Cls_step)
  from m(4) obtain d where d: "st_rest m3 = d # st_rest m" "cls_mem CDigit d"
    "st_pos m = Suc (st_pos m3)" "st_caps m = st_caps m3" by (rule ms_Cls_step)
  show ?thesis by (rule that[of a b c d]) (use a b c d in simp_all)
qed

lemma ms_Group_digit4:
  assumes "st' \<in> set (ms (Group i digit4) st)"
  shows "\<exists>a b c d. st_caps st' i = Some [a, b, c, d] \<and> is_digit a"
proof -
  from assms obtain m where m: "m \<in> set (ms digit4 st)" "st' = set_cap i st m"
    unfolding ms_Group_mem by blast
  from m(1) obtain a b c d where
    r: "st_rest st = a # b # c # d # st_rest m" "is_digit a" "st_pos m = st_pos st + 4"
    by (rule ms_digit4_mem)
  show ?thesis by (intro exI[of _ a] exI[of _ b] exI[of _ c] exI[of _ d]) (simp add: m(2) r)
qed

lemma ggRe_cap3:
  assumes "st' \<in> set (ms ggRe st)"
  shows "\<exists>a b c d. st_caps st' 3 = Some [a, b, c, d] \<and> is_digit a"
proof -
  from assms obtain m where "st' \<in> set (ms (Group 3 digit4) m)"
    unfolding ggRe_def seqs.simps ms_Seq_mem by blast
  then show ?thesis by (rule ms_Group_digit4)
qed

lemma groups_simps:
  "groups digit2 = {}" "groups digit4 = {}" "groups spaces0 = {}" "groups spaces1 = {}"
  "groups (Opt r) = groups r"
  by (simp_all add: digit2_def digit4_def spaces0_def spaces1_def Opt_def Plus_def)

lemma bol_cap1:
  assumes "st' \<in> set (ms (Seq Bol (Seq (Group 1 digit4) r)) st)" and "1 \<notin> groups r"
  shows "\<exists>a b c d. st_caps st' 1 = Some [a, b, c, d] \<and> is_digit a"
proof -
  from assms(1) obtain m0 m1 where m: "m1 \<in> set (ms (Group 1 digit4) m0)" "st' \<in> set (ms r m1)"
    unfolding ms_Seq_mem by blast
  from ms_caps_other[OF m(2) assms(2)] have "st_caps st' 1 = st_caps m1 1" .
  with ms_Group_digit4[OF m(1)] show ?thesis by simp
qed

lemma jpRe_cap1:
  assumes "st' \<in> set (ms jpRe st)"
  shows "\<exists>a b c d. st_caps st' 1 = Some [a, b, c, d] \<and> is_digit a"
proof (rule bol_cap1)
  show "st' \<in> set (ms (Seq Bol (Seq (Group 1 digit4)
      (seqs [Lit (str ''/''), Group 2 digit2, Lit (str ''/''), Group 3 digit2, Eol]))) st)"
    using assms by (simp only: jpRe_def seqs.simps)
  show "1 \<notin> groups (seqs [Lit (str ''/''), Group 2 digit2, Lit (str ''/''), Group 3 digit2, Eol])"
    by (simp add: groups_simps)
qed

lemma krRe_cap1:
  assumes "st' \<in> set (ms krRe st)"
  shows "\<exists>a b c d. st_caps st' 1 = Some [a, b, c, d] \<and> is_digit a"
proof (rule bol_cap1)
  show "st' \<in> set (ms (Seq Bol (Seq (Group 1 digit4)
      (seqs [Lit (str ''.''), spaces0, Group 2 digit2, Lit (str ''.''), spaces0,
                Group 3 digit2, Opt (Lit (str ''.'')), Eol]))) st)"
    using assms by (simp only: krRe_def seqs.simps)
  show "1 \<notin> groups (seqs [Lit (str ''.''), spaces0, Group 2 digit2, Lit (str ''.''), spaces0,
                Group 3 digit2, Opt (Lit (str ''.'')), Eol])"
    by (simp add: groups_simps)
qed

lemma match_re_state:
  assumes "match_re re s = Some m"
  obtains st st0 where "st \<in> set (ms re st0)" "m_caps m = st_caps st"
proof -
  from assms obtain k st sts where k: "ms re (MState (0 + k) (drop k s) no_caps) = st # sts"
    "m = mk_match (0 + k) (drop k s) st"
    unfolding match_re_def using search_SomeD by blast
  from k(1) have "st \<in> set (ms re (MState (0 + k) (drop k s) no_caps))" by simp
  moreover have "m_caps m = st_caps st" by (simp add: k(2))
  ultimately show ?thesis by (rule that)
qed

lemma stampedI: "\<not> is_space a \<Longrightarrow> stamped ((a # u) @ v @ time_suffix)"
  unfolding stamped_def by (intro exI[of _ a] exI[of _ "u @ v"]) simp

lemma trim_fixed:
  assumes "r \<noteq> []" and "\<not> is_space (hd r)" and "\<not> is_space (last r)"
  shows "trim r = r"
proof -
  from assms(1,2) have f: "dropWhile is_space r = r" by (cases r) simp_all
  from assms(1,3) have "dropWhile is_space (rev r) = rev r" by (cases "rev r") (simp_all add: last_rev hd_rev)
  with f show ?thesis by (simp add: trim_def)
qed

lemma stamped_trimmed: "stamped r \<Longrightarrow> trim r = r \<and> r \<noteq> []"
proof -
  assume "stamped r"
  then obtain a body where r: "r = a # body @ time_suffix" "\<not> is_space a" unfolding stamped_def by blast
  have ts: "time_suffix \<noteq> []" "last time_suffix = 90"
    by (simp_all add: time_suffix_def str_def)
  have "last r = 90" using ts by (simp add: r(1))
  then have "\<not> is_space (last r)" by (simp add: is_space_def)
  moreover have "r \<noteq> []" "\<not> is_space (hd r)" using r by simp_all
  ultimately show ?thesis using trim_fixed by blast
qed

lemma digits_of_digits: "digits_of n \<noteq> [] \<and> list_all is_digit (digits_of n)"
proof (induction n rule: digits_of.induct)
  case (1 n)
  show ?case
  proof (cases "n < 10")
    case True
    then show ?thesis by (subst digits_of.simps, subst (2) digits_of.simps) (simp add: is_digit_def)
  next
    case False
    with 1 have ih: "digits_of (n div 10) \<noteq> []" "list_all is_digit (digits_of (n div 10))" by simp_all
    have "n mod 10 < 10" by simp
    then have "is_digit (48 + n mod 10)" unfolding is_digit_def by linarith
    with ih False show ?thesis by (subst digits_of.simps, subst (2) digits_of.simps) simp
  qed
qed

lemma show_int_head: "\<exists>a u. show_int i = a # u \<and> \<not> is_space a"
proof (cases "i < 0")
  case True
  then show ?thesis by (simp add: show_int_def is_space_def)
next
  case False
  from digits_of_digits[of "nat i"] obtain a u where "digits_of (nat i) = a # u" "is_digit a"
    by (cases "digits_of (nat i)") auto
  with False show ?thesis by (auto simp: show_int_def digit_not_space)
qed

lemma ggRule_total: "\<exists>g. ggRule s = Inr g \<and> (case g of None \<Rightarrow> True | Some r \<Rightarrow> stamped r)"
proof (cases "match_re ggRe s")
  case None
  then show ?thesis by (simp add: ggRule_def)
next
  case (Some m)
  from match_caps_set[OF Some sets_cap_res(11)] obtain day where d: "m_caps m 1 = Some day" by blast
  from match_caps_set[OF Some sets_cap_res(12)] obtain month where mo: "m_caps m 2 = Some month" by blast
  from Some obtain st st0 where st: "st \<in> set (ms ggRe st0)" "m_caps m = st_caps st"
    by (rule match_re_state)
  from ggRe_cap3[OF st(1)] obtain a b c e where y: "m_caps m 3 = Some [a, b, c, e]" "is_digit a"
    unfolding st(2) by blast
  show ?thesis
  proof (cases "monthMap (toLowerCase month)")
    case None
    with Some d mo show ?thesis by (simp add: ggRule_def receiver_def bind_Inr)
  next
    case (Some monthNum)
    have "stamped ((a # [b, c, e]) @ (str ''-'' @ monthNum @ str ''-'' @ padStart2 day) @ time_suffix)"
      by (rule stampedI) (rule digit_not_space[OF y(2)])
    with Some \<open>match_re ggRe s = Some m\<close> d mo y show ?thesis
      by (simp add: ggRule_def receiver_def bind_Inr interpolate_def)
  qed
qed

lemma recurringRule_total:
  "\<exists>g. recurringRule y s = Inr g \<and> (case g of None \<Rightarrow> True | Some r \<Rightarrow> stamped r)"
proof (cases "match_re recurringRe s")
  case None
  then show ?thesis by (simp add: recurringRule_def)
next
  case (Some m)
  from match_caps_set[OF Some sets_cap_res(14)] obtain day where d: "m_caps m 1 = Some day" by blast
  from match_caps_set[OF Some sets_cap_res(15)] obtain month where mo: "m_caps m 2 = Some month" by blast
  show ?thesis
  proof (cases "monthMap (toLowerCase month)")
    case None
    with Some d mo show ?thesis by (simp add: recurringRule_def receiver_def bind_Inr)
  next
    case (Some monthNum)
    from show_int_head[of "y + 1"] obtain a u where a: "show_int (y + 1) = a # u" "\<not> is_space a" by blast
    have "stamped ((a # u) @ (str ''-'' @ monthNum @ str ''-'' @ padStart2 day) @ time_suffix)"
      by (rule stampedI) (rule a(2))
    with Some \<open>match_re recurringRe s = Some m\<close> d mo a(1) show ?thesis
      by (simp add: recurringRule_def receiver_def bind_Inr)
  qed
qed

lemma digitRule_stamped:
  assumes "digitRule re s = Some r" and "\<And>st st0. st \<in> set (ms re st0) \<Longrightarrow> \<exists>a b c d. st_caps st 1 = Some [a, b, c, d] \<and> is_digit a"
  shows "stamped r"
proof -
  from assms(1) obtain m where m: "match_re re s = Some m"
    "r = interpolate (m_caps m 1) @ str ''-'' @ interpolate (m_caps m 2) @ str ''-''
                @ interpolate (m_caps m 3) @ time_suffix"
    by (auto simp: digitRule_def split: option.splits)
  from m(1) obtain st st0 where st: "st \<in> set (ms re st0)" "m_caps m = st_caps st"
    by (rule match_re_state)
  from assms(2)[OF st(1)] obtain a b c d where y: "m_caps m 1 = Some [a, b, c, d]" "is_digit a"
    unfolding st(2) by blast
  have "stamped ((a # [b, c, d]) @ (str ''-'' @ interpolate (m_caps m 2) @ str ''-''
                @ interpolate (m_caps m 3)) @ time_suffix)"
    by (rule stampedI) (rule digit_not_space[OF y(2)])
  moreover have "interpolate (m_caps m 1) = a # [b, c, d]"
    by (simp only: y(1) interpolate_def option.case)
  ultimately show ?thesis unfolding m(2) by simp
qed

lemma normalizeDateString_empty: "normalizeDateString y [] = Inr None"
  by (simp add: normalizeDateString_def)

lemma normalizeDateString_total:
  assumes "s \<noteq> []"
  shows "\<exists>r. normalizeDateString y s = Inr (Some r) \<and> (r = s \<or> stamped r)"
proof -
  from ggRule_total[of s] obtain g where g: "ggRule s = Inr g" "case g of None \<Rightarrow> True | Some r \<Rightarrow> stamped r"
    by blast
  from recurringRule_total[of y s] obtain c where c: "recurringRule y s = Inr c"
    "case c of None \<Rightarrow> True | Some r \<Rightarrow> stamped r" by blast
  show ?thesis
  proof (cases g)
    case (Some r)
    with g assms show ?thesis by (simp add: normalizeDateString_def bind_Inr)
  next
    case None
    note gn = None
    show ?thesis
    proof (cases c)
      case (Some r)
      with g gn c assms show ?thesis by (simp add: normalizeDateString_def bind_Inr)
    next
      case None
      note cn = None
      show ?thesis
      proof (cases "digitRule jpRe s")
        case (Some r)
        have "stamped r" by (rule digitRule_stamped[OF Some]) (rule jpRe_cap1)
        with Some g gn c cn assms show ?thesis by (simp add: normalizeDateString_def bind_Inr)
      next
        case None
        note jn = None
        show ?thesis
        proof (cases "digitRule krRe s")
          case (Some r)
          have "stamped r" by (rule digitRule_stamped[OF Some]) (rule krRe_cap1)
          with Some jn g gn c cn assms show ?thesis by (simp add: normalizeDateString_def bind_Inr)
        next
          case None
          with jn g gn c cn assms show ?thesis by (simp add: normalizeDateString_def bind_Inr)
        qed
      qed
    qed
  qed
qed

lemma normalizeDateString_opt_date:
  "trim s = s \<Longrightarrow> \<exists>r. normalizeDateString y s = Inr r \<and> opt_date r"
proof (cases "s = []")
  case True
  then show ?thesis by (simp add: normalizeDateString_empty opt_date_def)
next
  case False
  assume t: "trim s = s"
  from normalizeDateString_total[OF False, of y] obtain r
    where r: "normalizeDateString y s = Inr (Some r)" "r = s \<or> stamped r" by blast
  from r(2) have "trim r = r \<and> r \<noteq> []"
  proof
    assume "r = s" with t False show ?thesis by simp
  next
    assume "stamped r" then show ?thesis by (rule stamped_trimmed)
  qed
  with r(1) show ?thesis by (simp add: opt_date_def)
qed

lemma parseDate_raw:
  "list_all (sets_cap 1) ps \<Longrightarrow>
   parseDate y t ps = (case firstRawDate t ps of None \<Rightarrow> Inr None | Some raw \<Rightarrow> normalizeDateString y raw)"
proof (induction ps)
  case Nil
  then show ?case by simp
next
  case (Cons p ps)
  then have p: "sets_cap 1 p" and ih: "parseDate y t ps =
      (case firstRawDate t ps of None \<Rightarrow> Inr None | Some raw \<Rightarrow> normalizeDateString y raw)" by simp_all
  show ?case
  proof (cases "match_re p t")
    case None
    with ih show ?thesis by simp
  next
    case (Some m)
    from match_caps_set[OF Some p] obtain v where v: "m_caps m 1 = Some v" by blast
    from trimmedCapture_total[OF v] have "trimmedCapture m = Inr (trim v)" .
    moreover have "firstRawDate t (p # ps) = Some (trim v)"
      by (simp only: firstRawDate.simps Some v option.case)
    ultimately show ?thesis using Some by (simp add: bind_Inr)
  qed
qed

lemma firstRawDate_trimmed: "firstRawDate t ps = Some raw \<Longrightarrow> trim raw = raw"
  by (induction ps) (auto split: option.splits simp: trim_idem)

lemma parseDate_total:
  assumes "list_all (sets_cap 1) ps"
  shows "\<exists>r. parseDate y t ps = Inr r \<and> opt_date r"
proof (cases "firstRawDate t ps")
  case None
  then show ?thesis by (simp add: parseDate_raw[OF assms] opt_date_def)
next
  case (Some raw)
  from normalizeDateString_opt_date[OF firstRawDate_trimmed[OF Some], of y] Some
  show ?thesis by (simp add: parseDate_raw[OF assms])
qed

lemma creationPatterns_caps: "list_all (sets_cap 1) creationPatterns"
  using sets_cap_res(3,4,5,6) by (simp add: creationPatterns_def)

lemma expiryPatterns_caps: "list_all (sets_cap 1) expiryPatterns"
  using sets_cap_res(3,4,5,7) by (simp add: expiryPatterns_def)

lemma parseWhoisData_fields:
  obtains pd rg cr ex ns rt sts sec md where
    "parseField t (str ''Domain'') [str ''Domain Name'', str ''domain name'', str ''domain''] = Inr pd"
    "parseField t (str ''Registrar'') [str ''REGISTRAR'', str ''registrar''] = Inr rg"
    "parseCreationDate y t = Inr cr"
    "parseExpiryDate y t = Inr ex"
    "parseNameservers t = Inr ns"
    "parseField t (str ''Registrant'') [str ''registrant name'', str ''org'', str ''Organization''] = Inr rt"
    "parseStatus t = Inr sts"
    "parseField t (str ''DNSSEC'') [str ''Signed'', str ''dnssec''] = Inr sec"
    "parseField t (str ''Last Modified'') [str ''last modified'', str ''Last Update'', str ''Changed'', str ''changed''] = Inr md"
    "parseWhoisData y t fb = Inr \<lparr>domainName = orFallback pd fb, registrar = rg,
            creationDate = cr, expirationDate = ex, nameservers = ns,
            registrant = rt, status = sts, dnssec = sec, lastModified = md\<rparr>"
    "opt_trimmed pd" "opt_trimmed rg" "opt_date cr" "opt_date ex" "opt_nonempty ns"
    "opt_trimmed rt" "opt_trimmed sec" "opt_trimmed md"
proof -
  from parseField_total obtain pd where pd:
    "parseField t (str ''Domain'') [str ''Domain Name'', str ''domain name'', str ''domain''] = Inr pd"
    "opt_trimmed pd" by blast
  from parseField_total obtain rg where rg:
    "parseField t (str ''Registrar'') [str ''REGISTRAR'', str ''registrar''] = Inr rg" "opt_trimmed rg" by blast
  from parseDate_total[OF creationPatterns_caps] obtain cr where cr:
    "parseCreationDate y t = Inr cr" "opt_date cr" unfolding parseCreationDate_def by blast
  from parseDate_total[OF expiryPatterns_caps] obtain ex where ex:
    "parseExpiryDate y t = Inr ex" "opt_date ex" unfolding parseExpiryDate_def by blast
  from parseNameservers_total obtain ns where ns: "parseNameservers t = Inr ns" "opt_nonempty ns" by blast
  from parseField_total obtain rt where rt:
    "parseField t (str ''Registrant'') [str ''registrant name'', str ''org'', str ''Organization''] = Inr rt"
    "opt_trimmed rt" by blast
  from parseStatus_total obtain sts where sts: "parseStatus t = Inr sts" by blast
  from parseField_total obtain sec where sec:
    "parseField t (str ''DNSSEC'') [str ''Signed'', str ''dnssec''] = Inr sec" "opt_trimmed sec" by blast
  from parseField_total obtain md where md:
    "parseField t (str ''Last Modified'') [str ''last modified'', str ''Last Update'', str ''Changed'', str ''changed''] = Inr md"
    "opt_trimmed md" by blast
  have w: "parseWhoisData y t fb = Inr \<lparr>domainName = orFallback pd fb, registrar = rg,
            creationDate = cr, expirationDate = ex, nameservers = ns,
            registrant = rt, status = sts, dnssec = sec, lastModified = md\<rparr>"
    unfolding parseWhoisData_def pd(1) rg(1) cr(1) ex(1) ns(1) rt(1) sts sec(1) md(1) bind_Inr ..
  show ?thesis
    by (rule that[OF pd(1) rg(1) cr(1) ex(1) ns(1) rt(1) sts sec(1) md(1) w pd(2) rg(2) cr(2) ex(2)
          ns(2) rt(2) sec(2) md(2)])
qed

lemmas ev_dates = keyRe_def keyReSp_def labelRe_def registeredOnRe_def feeDueRe_def creationPatterns_def
  expiryPatterns_def parseCreationDate_def parseExpiryDate_def

lemmas ev_engine = orFallback_def parseWhoisData_def

lemma empty_text_record:
  "parseWhoisData y [] fb =
   Inr \<lparr>domainName = fb, registrar = None, creationDate = None, expirationDate = None,
        nameservers = None, registrant = None, status = None, dnssec = None, lastModified = None\<rparr>"
  by (cases fb) (simp_all add: ev_chars ev_regex ev_fault ev_fields ev_ns ev_status ev_date ev_dates ev_engine)

lemma fee_due_2025:
  "parseExpiryDate 2025 (str ''Registry fee due on 30th April each year'') = Inr (Some (str ''2026-04-30T00:00:00Z''))"
  by (simp add: ev_chars ev_regex ev_fault ev_fields ev_date ev_dates)

lemma fee_due_2026:
  "parseExpiryDate 2026 (str ''Registry fee due on 30th April each year'') = Inr (Some (str ''2027-04-30T00:00:00Z''))"
  by (simp add: ev_chars ev_regex ev_fault ev_fields ev_date ev_dates)


lemma normalizeDateString_clock:
  assumes "match_re recurringRe s = None"
  shows "normalizeDateString y1 s = normalizeDateString y2 s"
proof -
  from assms have "recurringRule y1 s = Inr None" "recurringRule y2 s = Inr None"
    by (simp_all add: recurringRule_def)
  then show ?thesis unfolding normalizeDateString_def by (simp only:)
qed

lemma parseWhoisData_projections:
  "\<exists>r. parseWhoisData y t fb = Inr r
     \<and> parseCreationDate y t = Inr (creationDate r) \<and> parseExpiryDate y t = Inr (expirationDate r)
     \<and> parseNameservers t = Inr (nameservers r) \<and> parseStatus t = Inr (status r)"
proof (rule parseWhoisData_fields[of t y fb])
  fix pd rg cr ex ns rt sts sec md
  assume "parseCreationDate y t = Inr cr" "parseExpiryDate y t = Inr ex"
    "parseNameservers t = Inr ns" "parseStatus t = Inr sts"
    "parseWhoisData y t fb = Inr \<lparr>domainName = orFallback pd fb, registrar = rg,
            creationDate = cr, expirationDate = ex, nameservers = ns,
            registrant = rt, status = sts, dnssec = sec, lastModified = md\<rparr>"
  then show ?thesis by simp
qed

lemma parseDate_clock:
  assumes "list_all (sets_cap 1) ps" and "not_recurring (firstRawDate t ps)"
  shows "parseDate y1 t ps = parseDate y2 t ps"
proof (cases "firstRawDate t ps")
  case None
  then show ?thesis by (simp add: parseDate_raw[OF assms(1)])
next
  case (Some raw)
  with assms(2) have "match_re recurringRe raw = None" by (simp add: not_recurring_def)
  from normalizeDateString_clock[OF this] Some show ?thesis by (simp add: parseDate_raw[OF assms(1)])
qed

lemma orFallback_cases:
  "opt_trimmed pd \<Longrightarrow> orFallback pd fb = fb \<or> (\<exists>d. orFallback pd fb = Some d \<and> trim d = d \<and> 0 < length d)"
  by (cases pd) (auto simp: orFallback_def opt_trimmed_def)

lemma starts_in_simps [simp]: "starts_in k [] = False" "starts_in k (x # xs) = cls_mem k x"
  by (simp_all add: starts_in_def)

lemma first_Seq: "first a st m \<Longrightarrow> first b m x \<Longrightarrow> first (Seq a b) st x"
  unfolding first_def by auto

lemma first_Group: "first r st m \<Longrightarrow> first (Group i r) st (set_cap i st m)"
  unfolding first_def by auto

lemma first_Alt1: "first a st x \<Longrightarrow> first (Alt a b) st x"
  unfolding first_def by auto

lemma first_Alt2: "ms a st = [] \<Longrightarrow> first b st x \<Longrightarrow> first (Alt a b) st x"
  unfolding first_def by auto

lemma first_Eps: "first Eps st st"
  unfolding first_def by simp

lemma first_Lit: "first (Lit w) (MState p (w @ t) c) (MState (p + length w) t c)"
  unfolding first_def by (simp add: advance_def)

lemma first_LitI:
  "map canon v = map canon w \<Longrightarrow> first (LitI w) (MState p (v @ t) c) (MState (p + length w) t c)"
proof -
  assume a: "map canon v = map canon w"
  then have l: "length v = length w" by (rule map_eq_imp_length_eq)
  then show ?thesis unfolding first_def by (simp add: advance_def a)
qed

lemma first_Bol: "first Bol (MState 0 s c) (MState 0 s c)"
  unfolding first_def by simp

lemma first_Eol: "first Eol (MState p [] c) (MState p [] c)"
  unfolding first_def by simp

lemma first_star_run:
  "list_all (cls_mem k) w \<Longrightarrow> \<not> starts_in k t \<Longrightarrow>
   first (Star (Cls k)) (MState p (w @ t) c) (MState (p + length w) t c)"
proof (induction w arbitrary: p)
  case Nil
  then have "ms (Cls k) (MState p t c) = []" by (cases t) simp_all
  then show ?case unfolding first_def by (simp add: ms.simps(8))
next
  case (Cons a w)
  then have a: "cls_mem k a" and w: "list_all (cls_mem k) w" by simp_all
  from Cons.IH[OF w Cons.prems(2), of "Suc p"] obtain zs
    where zs: "ms (Star (Cls k)) (MState (Suc p) (w @ t) c) = MState (Suc p + length w) t c # zs"
    unfolding first_def by blast
  have "ms (Cls k) (MState p ((a # w) @ t) c) = [MState (Suc p) (w @ t) c]"
    using a by (simp add: advance_def)
  then have "ms (Star (Cls k)) (MState p ((a # w) @ t) c) =
      ms (Star (Cls k)) (MState (Suc p) (w @ t) c) @ [MState p ((a # w) @ t) c]"
    by (subst ms.simps(8)) simp
  with zs show ?case unfolding first_def by simp
qed

lemma first_plus_run:
  assumes "list_all (cls_mem k) w" and "w \<noteq> []" and "\<not> starts_in k t"
  shows "first (Plus (Cls k)) (MState p (w @ t) c) (MState (p + length w) t c)"
proof -
  from assms(2) obtain a w' where w: "w = a # w'" by (cases w) auto
  with assms(1) have a: "cls_mem k a" and w': "list_all (cls_mem k) w'" by simp_all
  have 1: "first (Cls k) (MState p (w @ t) c) (MState (Suc p) (w' @ t) c)"
    unfolding first_def using a by (simp add: w advance_def)
  have 2: "first (Star (Cls k)) (MState (Suc p) (w' @ t) c) (MState (Suc p + length w') t c)"
    by (rule first_star_run[OF w' assms(3)])
  from first_Seq[OF 1 2] show ?thesis by (simp add: Plus_def w)
qed

lemma first_digit2:
  "is_digit a \<Longrightarrow> is_digit b \<Longrightarrow> first digit2 (MState p ([a, b] @ t) c) (MState (p + 2) t c)"
  unfolding first_def by (simp add: digit2_def advance_def)

lemma first_digit4:
  "is_digit a \<Longrightarrow> is_digit b \<Longrightarrow> is_digit d \<Longrightarrow> is_digit e \<Longrightarrow>
   first digit4 (MState p ([a, b, d, e] @ t) c) (MState (p + 4) t c)"
  unfolding first_def by (simp add: digit4_def advance_def)

lemma first_match:
  "first re (MState 0 s no_caps) st \<Longrightarrow> match_re re s = Some (mk_match 0 s st)"
  unfolding first_def match_re_def using search_hit by blast

lemma alpha_props: "is_alpha c \<Longrightarrow> is_word c \<and> \<not> is_digit c \<and> \<not> is_space c"
  by (auto simp: is_alpha_def is_word_def is_digit_def is_space_def is_upper_def is_lower_def)

lemma lower_alpha: "is_lower (lower c) \<Longrightarrow> is_alpha c"
  by (auto simp: is_alpha_def lower_def is_upper_def is_lower_def split: if_splits)

lemma lower_eq_canon: "lower x = lower y \<Longrightarrow> canon x = canon y"
  by (auto simp: lower_def canon_def is_upper_def is_lower_def split: if_splits)

lemma toLowerCase_eq_canon: "toLowerCase v = toLowerCase w \<Longrightarrow> map canon v = map canon w"
proof (induction v arbitrary: w)
  case Nil
  then show ?case by (simp add: toLowerCase_def)
next
  case (Cons a v)
  then obtain b w' where w: "w = b # w'" by (cases w) (auto simp: toLowerCase_def)
  with Cons.prems have e: "lower a = lower b" "toLowerCase v = toLowerCase w'"
    by (simp_all add: toLowerCase_def)
  from lower_eq_canon[OF e(1)] Cons.IH[OF e(2)] show ?case by (simp add: w)
qed

lemma lowered_alpha: "list_all is_lower (toLowerCase w) \<Longrightarrow> list_all is_alpha w"
  by (induction w) (auto simp: toLowerCase_def lower_alpha)

lemma ordinal_cases:
  assumes "is_ordinal w"
  obtains v where "v \<in> set ordinals" "toLowerCase w = v" "toLowerCase v = v" "length w = 2" "list_all is_alpha w"
proof -
  from assms have m: "toLowerCase w \<in> set ordinals" by (simp add: is_ordinal_def)
  then have l: "list_all is_lower (toLowerCase w) \<and> length (toLowerCase w) = 2"
    by (auto simp: ordinals_def str_def is_lower_def)
  then have a: "list_all is_alpha w" by (simp add: lowered_alpha)
  from l have n: "length w = 2" by (simp add: toLowerCase_def)
  from m have "toLowerCase (toLowerCase w) = toLowerCase w"
    by (auto simp: ordinals_def str_def toLowerCase_def lower_def is_upper_def)
  with m a n show ?thesis by (intro that[of "toLowerCase w"]) simp_all
qed

lemma ms_LitI_len:
  "length v = length w \<Longrightarrow>
   ms (LitI w) (MState p (v @ t) c) = (if map canon v = map canon w then [MState (p + length w) t c] else [])"
  by (simp add: advance_def)

lemma first_ordinal:
  assumes "is_ordinal w"
  shows "first ordinal (MState p (w @ t) c) (MState (p + 2) t c)"
proof -
  from assms obtain v where v: "v \<in> set ordinals" "toLowerCase w = v" "toLowerCase v = v" "length w = 2"
    by (rule ordinal_cases)
  from v(2,3) have "toLowerCase w = toLowerCase v" by simp
  then have c: "map canon w = map canon v" by (rule toLowerCase_eq_canon)
  have l: "length w = length (str ''st'')" "length w = length (str ''nd'')"
    "length w = length (str ''rd'')" "length w = length (str ''th'')"
    using v(4) by (simp_all add: str_def)
  have n: "length (str ''st'') = 2" "length (str ''nd'') = 2" "length (str ''rd'') = 2" "length (str ''th'') = 2"
    by (simp_all add: str_def)
  from v(1) have "map canon w = map canon (str ''st'') \<or> map canon w = map canon (str ''nd'')
      \<or> map canon w = map canon (str ''rd'') \<or> map canon w = map canon (str ''th'')"
    unfolding c by (auto simp: ordinals_def)
  then show ?thesis
    unfolding first_def ordinal_def ms.simps(7) ms_LitI_len[OF l(1)] ms_LitI_len[OF l(2)]
      ms_LitI_len[OF l(3)] ms_LitI_len[OF l(4)] n
    by auto
qed

lemma month_name:
  assumes "map_of monthNames (toLowerCase w) = Some mm"
  shows "w \<noteq> [] \<and> list_all is_alpha w \<and> monthMap (toLowerCase w) = Some mm"
proof -
  from assms have "(toLowerCase w, mm) \<in> set monthNames" by (rule map_of_SomeD)
  then have "list_all is_lower (toLowerCase w) \<and> toLowerCase w \<noteq> []"
    by (auto simp: monthNames_def str_def is_lower_def)
  then have "list_all is_alpha w" "w \<noteq> []" by (auto simp: lowered_alpha toLowerCase_def)
  moreover from assms have "monthMap (toLowerCase w) = Some mm"
    by (simp add: monthMap_def map_add_Some_iff)
  ultimately show ?thesis by simp
qed

lemma first_Group_state:
  "first r (MState p s c) (MState p' s' c') \<Longrightarrow>
   first (Group i r) (MState p s c) (MState p' s' (c'(i := Some (take (p' - p) s))))"
  unfolding first_def by (auto simp: set_cap_def)

lemma len4: "length w = 4 \<Longrightarrow> \<exists>a b c d. w = [a, b, c, d]"
  by (auto simp: length_Suc_conv eval_nat_numeral)

lemma len2: "length w = 2 \<Longrightarrow> \<exists>a b. w = [a, b]"
  by (auto simp: length_Suc_conv eval_nat_numeral)

lemma sp: "str '' '' = [32]" "str ''-'' = [45]" "str ''/'' = [47]" "str ''.'' = [46]"
  by (simp_all add: str_def)

lemma not_starts_alpha:
  "is_alpha a \<Longrightarrow> \<not> starts_in CDigit (a # t)" "is_alpha a \<Longrightarrow> \<not> starts_in CSpace (a # t)"
  using alpha_props[of a] by simp_all

lemma not_starts_misc:
  "\<not> starts_in CWord (32 # t)" "is_digit a \<Longrightarrow> \<not> starts_in CSpace (a # t)"
  by (simp_all add: is_word_def is_upper_def is_lower_def is_digit_def digit_not_space)

lemma cls_fun: "cls_mem CDigit = is_digit" "cls_mem CSpace = is_space" "cls_mem CWord = is_word"
  by (rule ext, simp)+

lemma space32: "list_all (cls_mem CSpace) [32]"
  by (simp add: is_space_def)

lemma alpha_word: "list_all is_alpha w \<Longrightarrow> list_all is_word w"
  by (induction w) (auto simp: alpha_props)

text \<open>The first five parts of the two ordinal-date patterns, on a text of that shape.\<close>

lemma first_day_month:
  assumes d: "D \<noteq> []" "list_all is_digit D" and ord: "is_ordinal sfx"
    and m: "M \<noteq> []" "list_all is_alpha M" and t: "\<not> starts_in CSpace t"
    and k: "first r (MState (length D + 2 + 1 + length M + 1) t (no_caps(1 := Some D, 2 := Some M))) x"
  shows "first (Seq (Group 1 digits1) (Seq ordinal (Seq spaces1 (Seq (Group 2 word1) (Seq spaces1 r)))))
           (MState 0 (D @ sfx @ [32] @ M @ [32] @ t) no_caps) x"
proof -
  from ord obtain o1 o2 where sfx: "sfx = [o1, o2]" "is_alpha o1"
    by (rule ordinal_cases) (auto dest!: len2)
  from m obtain m1 M' where M: "M = m1 # M'" "is_alpha m1" by (cases M) auto
  let ?s = "D @ sfx @ [32] @ M @ [32] @ t"
  let ?c1 = "no_caps(1 := Some D)"
  have "first digits1 (MState 0 (D @ (sfx @ [32] @ M @ [32] @ t)) no_caps)
          (MState (0 + length D) (sfx @ [32] @ M @ [32] @ t) no_caps)"
    unfolding digits1_def
    by (rule first_plus_run) (use d sfx not_starts_alpha in \<open>simp_all add: cls_fun\<close>)
  from first_Group_state[OF this, of 1]
  have f1: "first (Group 1 digits1) (MState 0 ?s no_caps) (MState (length D) (sfx @ [32] @ M @ [32] @ t) ?c1)"
    by simp
  have f2: "first ordinal (MState (length D) (sfx @ ([32] @ M @ [32] @ t)) ?c1)
      (MState (length D + 2) ([32] @ M @ [32] @ t) ?c1)"
    by (rule first_ordinal[OF ord])
  have f3: "first spaces1 (MState (length D + 2) ([32] @ (M @ [32] @ t)) ?c1)
      (MState (length D + 2 + length [32::nat]) (M @ [32] @ t) ?c1)"
    unfolding spaces1_def
    by (rule first_plus_run) (use M not_starts_alpha in \<open>simp_all add: is_space_def\<close>)
  have "first word1 (MState (length D + 2 + 1) (M @ ([32] @ t)) ?c1)
      (MState (length D + 2 + 1 + length M) ([32] @ t) ?c1)"
    unfolding word1_def
    by (rule first_plus_run) (use m alpha_word not_starts_misc in \<open>simp_all add: cls_fun\<close>)
  from first_Group_state[OF this, of 2]
  have f4: "first (Group 2 word1) (MState (length D + 2 + 1) (M @ [32] @ t) ?c1)
      (MState (length D + 2 + 1 + length M) ([32] @ t) (?c1(2 := Some M)))"
    by simp
  have f5: "first spaces1 (MState (length D + 2 + 1 + length M) ([32] @ t) (?c1(2 := Some M)))
      (MState (length D + 2 + 1 + length M + length [32::nat]) t (?c1(2 := Some M)))"
    unfolding spaces1_def
    by (rule first_plus_run) (use t in \<open>simp_all add: is_space_def\<close>)
  have "first (Seq spaces1 r) (MState (length D + 2 + 1 + length M) ([32] @ t) (?c1(2 := Some M))) x"
    using first_Seq[OF f5] k by simp
  then have "first (Seq (Group 2 word1) (Seq spaces1 r)) (MState (length D + 2 + 1) (M @ [32] @ t) ?c1) x"
    by (rule first_Seq[OF f4])
  then have "first (Seq spaces1 (Seq (Group 2 word1) (Seq spaces1 r)))
      (MState (length D + 2) ([32] @ M @ [32] @ t) ?c1) x"
    using first_Seq[OF f3] by simp
  then have "first (Seq ordinal (Seq spaces1 (Seq (Group 2 word1) (Seq spaces1 r))))
      (MState (length D) (sfx @ [32] @ M @ [32] @ t) ?c1) x"
    using first_Seq[OF f2] by simp
  then show ?thesis by (rule first_Seq[OF f1])
qed

lemma gg_match:
  assumes d: "D \<noteq> []" "list_all is_digit D" and ord: "is_ordinal sfx"
    and m: "M \<noteq> []" "list_all is_alpha M" and y: "length Y = 4" "list_all is_digit Y"
  shows "\<exists>mr. match_re ggRe (D @ sfx @ [32] @ M @ [32] @ Y) = Some mr
           \<and> m_caps mr 1 = Some D \<and> m_caps mr 2 = Some M \<and> m_caps mr 3 = Some Y"
proof -
  from y obtain a b c e where Y: "Y = [a, b, c, e]" "is_digit a" "is_digit b" "is_digit c" "is_digit e"
    by (auto dest!: len4)
  let ?n = "length D + 2 + 1 + length M + 1"
  let ?c2 = "no_caps(1 := Some D, 2 := Some M)"
  have "first digit4 (MState ?n ([a, b, c, e] @ []) ?c2) (MState (?n + 4) [] ?c2)"
    by (rule first_digit4) (use Y in simp_all)
  from first_Group_state[OF this, of 3]
  have k: "first (Group 3 digit4) (MState ?n Y ?c2) (MState (?n + 4) [] (?c2(3 := Some Y)))"
    by (simp add: Y(1))
  have t: "\<not> starts_in CSpace Y" using Y not_starts_misc by simp
  have "first ggRe (MState 0 (D @ sfx @ [32] @ M @ [32] @ Y) no_caps) (MState (?n + 4) [] (?c2(3 := Some Y)))"
    unfolding ggRe_def seqs.simps by (rule first_day_month[OF d ord m t k])
  from first_match[OF this] show ?thesis by simp
qed

lemma recurring_match:
  assumes d: "D \<noteq> []" "list_all is_digit D" and ord: "is_ordinal sfx"
    and m: "M \<noteq> []" "list_all is_alpha M"
  shows "\<exists>mr. match_re recurringRe (D @ sfx @ [32] @ M @ [32] @ str ''each year'') = Some mr
           \<and> m_caps mr 1 = Some D \<and> m_caps mr 2 = Some M"
proof -
  let ?n = "length D + 2 + 1 + length M + 1"
  let ?c2 = "no_caps(1 := Some D, 2 := Some M)"
  have k: "first (LitI (str ''each year'')) (MState ?n (str ''each year'' @ []) ?c2)
      (MState (?n + length (str ''each year'')) [] ?c2)"
    by (rule first_LitI) simp
  have t: "\<not> starts_in CSpace (str ''each year'')" by (simp add: str_def is_space_def)
  have "first recurringRe (MState 0 (D @ sfx @ [32] @ M @ [32] @ str ''each year'') no_caps)
      (MState (?n + length (str ''each year'')) [] ?c2)"
    unfolding recurringRe_def seqs.simps
    by (rule first_day_month[OF d ord m t]) (use k in simp)
  from first_match[OF this] show ?thesis by simp
qed

lemma gg_shape:
  assumes "D \<noteq> []" "list_all is_digit D" "is_ordinal sfx" "map_of monthNames (toLowerCase M) = Some mm"
    "length Y = 4" "list_all is_digit Y"
  shows "normalizeDateString y (D @ sfx @ str '' '' @ M @ str '' '' @ Y)
         = Inr (Some (Y @ str ''-'' @ mm @ str ''-'' @ padStart2 D @ str ''T00:00:00Z''))"
proof -
  from month_name[OF assms(4)] have m: "M \<noteq> []" "list_all is_alpha M" "monthMap (toLowerCase M) = Some mm"
    by simp_all
  from gg_match[OF assms(1,2,3) m(1,2) assms(5,6)] obtain mr where
    mr: "match_re ggRe (D @ sfx @ [32] @ M @ [32] @ Y) = Some mr"
      "m_caps mr 1 = Some D" "m_caps mr 2 = Some M" "m_caps mr 3 = Some Y" by blast
  have "ggRule (D @ sfx @ [32] @ M @ [32] @ Y)
      = Inr (Some (Y @ str ''-'' @ mm @ str ''-'' @ padStart2 D @ time_suffix))"
    using mr m(3) by (simp add: ggRule_def receiver_def bind_Inr interpolate_def)
  then show ?thesis using assms(1) unfolding normalizeDateString_def sp
    by (simp add: bind_Inr time_suffix_def)
qed

lemma star_cls_mem:
  "m' \<in> set (ms (Star (Cls k)) m) \<Longrightarrow> \<exists>w. st_rest m = w @ st_rest m' \<and> list_all (cls_mem k) w"
proof (induction "length (st_rest m)" arbitrary: m rule: less_induct)
  case less
  from less.prems consider "m' = m"
    | m1 where "m1 \<in> set (ms (Cls k) m)" "length (st_rest m1) < length (st_rest m)"
        "m' \<in> set (ms (Star (Cls k)) m1)"
    unfolding ms_Star_mem[of m' "Cls k" m] by blast
  then show ?case
  proof cases
    case 1
    then show ?thesis by simp
  next
    case 2
    from 2(1) obtain x where x: "st_rest m = x # st_rest m1" "cls_mem k x" by (rule ms_Cls_step)
    from less.hyps[OF 2(2) 2(3)] obtain w where w: "st_rest m1 = w @ st_rest m'" "list_all (cls_mem k) w"
      by blast
    show ?thesis by (rule exI[of _ "x # w"]) (simp add: x w)
  qed
qed

lemma plus_cls_mem:
  assumes "m' \<in> set (ms (Plus (Cls k)) m)"
  shows "\<exists>w a. st_rest m = w @ a # st_rest m' \<and> cls_mem k a"
proof -
  from assms obtain m1 where m1: "m1 \<in> set (ms (Cls k) m)" "m' \<in> set (ms (Star (Cls k)) m1)"
    unfolding Plus_def ms_Seq_mem by blast
  from m1(1) obtain x where x: "st_rest m = x # st_rest m1" "cls_mem k x" by (rule ms_Cls_step)
  from star_cls_mem[OF m1(2)] obtain w where w: "st_rest m1 = w @ st_rest m'" "list_all (cls_mem k) w"
    by blast
  obtain u a where ua: "x # w = u @ [a]" by (metis rev_exhaust list.distinct(1))
  then have "a \<in> set (x # w)" by (metis in_set_conv_decomp)
  with x(2) w(2) have a: "cls_mem k a" by (auto simp: list_all_iff)
  have "st_rest m = (x # w) @ st_rest m'" by (simp add: x w)
  then have "st_rest m = u @ a # st_rest m'" unfolding ua by simp
  with a show ?thesis by blast
qed

lemma gg_space_digit:
  assumes "x \<in> set (ms ggRe st)"
  shows "\<exists>u a b v. st_rest st = u @ a # b # v \<and> is_space a \<and> is_digit b"
proof -
  from assms obtain m1 m2 m3 m4 m5 where
    m: "m1 \<in> set (ms (Group 1 digits1) st)" "m2 \<in> set (ms ordinal m1)" "m3 \<in> set (ms spaces1 m2)"
       "m4 \<in> set (ms (Group 2 word1) m3)" "m5 \<in> set (ms spaces1 m4)" "x \<in> set (ms (Group 3 digit4) m5)"
    unfolding ggRe_def seqs.simps ms_Seq_mem by blast
  have "consumes st m4"
    by (rule consumes_trans[OF consumes_trans[OF consumes_trans[OF ms_consumes[OF m(1)] ms_consumes[OF m(2)]]
          ms_consumes[OF m(3)]] ms_consumes[OF m(4)]])
  then obtain u0 where u0: "st_rest st = u0 @ st_rest m4" unfolding consumes_def by blast
  from plus_cls_mem[OF m(5)[unfolded spaces1_def]] obtain w a where
    wa: "st_rest m4 = w @ a # st_rest m5" "is_space a" by auto
  from m(6) obtain y where "y \<in> set (ms digit4 m5)" unfolding ms_Group_mem by blast
  then obtain b c d e where b: "st_rest m5 = b # c # d # e # st_rest y" "is_digit b" by (rule ms_digit4_mem)
  have "st_rest st = (u0 @ w) @ a # b # (c # d # e # st_rest y)" by (simp add: u0 wa(1) b(1))
  with wa(2) b(2) show ?thesis by blast
qed

lemma digits_first:
  "list_all is_digit D \<Longrightarrow> list_all (\<lambda>c. \<not> is_digit c) T \<Longrightarrow> D @ T = pre @ a # b # v \<Longrightarrow>
   \<not> is_digit a \<Longrightarrow> \<not> is_digit b"
proof (induction D arbitrary: pre)
  case Nil
  then have "b \<in> set T" by simp
  with Nil.prems(2) show ?case by (simp add: list_all_iff)
next
  case (Cons d D)
  show ?case
  proof (cases pre)
    case Nil
    with Cons.prems(3) have "a = d" by simp
    with Cons.prems(1,4) show ?thesis by simp
  next
    case (Cons p pre')
    with Cons.prems(3) have "D @ T = pre' @ a # b # v" by simp
    from Cons.IH[OF _ Cons.prems(2) this Cons.prems(4)] Cons.prems(1) show ?thesis by simp
  qed
qed

lemma match_none:
  assumes "\<And>k x. k \<le> length s \<Longrightarrow> x \<in> set (ms re (MState k (drop k s) no_caps)) \<Longrightarrow> False"
  shows "match_re re s = None"
  unfolding match_re_def
proof (rule search_NoneI)
  fix k assume k: "k \<le> length s"
  show "ms re (MState (0 + k) (drop k s) no_caps) = []"
  proof (cases "ms re (MState (0 + k) (drop k s) no_caps)")
    case Nil
    then show ?thesis .
  next
    case (Cons x xs)
    then have "x \<in> set (ms re (MState k (drop k s) no_caps))" by simp
    from assms[OF k this] show ?thesis ..
  qed
qed

lemma gg_no_match:
  assumes "list_all is_digit D" and "list_all (\<lambda>c. \<not> is_digit c) T"
  shows "match_re ggRe (D @ T) = None"
proof (rule match_none)
  fix k x assume "x \<in> set (ms ggRe (MState k (drop k (D @ T)) no_caps))"
  from gg_space_digit[OF this] obtain u a b v where
    h: "drop k (D @ T) = u @ a # b # v" "is_space a" "is_digit b" by auto
  define pre where "pre = take k (D @ T)"
  have "D @ T = pre @ drop k (D @ T)" by (simp only: pre_def append_take_drop_id)
  then have e: "D @ T = (pre @ u) @ a # b # v" by (simp only: h(1) append_assoc)
  from h(2) have "\<not> is_digit a" using digit_not_space by blast
  from digits_first[OF assms e this] h(3) show False by simp
qed

lemma ordinal_alpha:
  assumes "m' \<in> set (ms ordinal m)"
  shows "\<exists>a t. st_rest m = a # t \<and> is_alpha a"
proof -
  have c: "\<exists>a t. st_rest m = a # t \<and> is_alpha a"
    if "map canon (take (length [l1, l2]) (st_rest m)) = map canon [l1, l2]" "is_lower l1" for l1 l2 :: nat
  proof -
    from that(1) obtain a b t where r: "st_rest m = a # b # t"
      by (cases "st_rest m"; cases "tl (st_rest m)") auto
    with that(1) have "canon a = canon l1" by simp
    with that(2) have "is_alpha a"
      by (auto simp: canon_def is_alpha_def is_lower_def is_upper_def split: if_splits)
    with r show ?thesis by blast
  qed
  from assms consider "map canon (take (length (str ''st'')) (st_rest m)) = map canon (str ''st'')"
    | "map canon (take (length (str ''nd'')) (st_rest m)) = map canon (str ''nd'')"
    | "map canon (take (length (str ''rd'')) (st_rest m)) = map canon (str ''rd'')"
    | "map canon (take (length (str ''th'')) (st_rest m)) = map canon (str ''th'')"
    unfolding ordinal_def ms_Alt_mem ms_LitI_mem by blast
  then show ?thesis
  proof cases
    case 1
    show ?thesis by (rule c[of 115 116]) (use 1 in \<open>simp_all add: str_def is_lower_def\<close>)
  next
    case 2
    show ?thesis by (rule c[of 110 100]) (use 2 in \<open>simp_all add: str_def is_lower_def\<close>)
  next
    case 3
    show ?thesis by (rule c[of 114 100]) (use 3 in \<open>simp_all add: str_def is_lower_def\<close>)
  next
    case 4
    show ?thesis by (rule c[of 116 104]) (use 4 in \<open>simp_all add: str_def is_lower_def\<close>)
  qed
qed

lemma ordinal_date_alpha:
  assumes "x \<in> set (ms (Seq (Group 1 digits1) (Seq ordinal r)) st)"
  shows "\<exists>a \<in> set (st_rest st). is_alpha a"
proof -
  from assms obtain m1 m2 where m: "m1 \<in> set (ms (Group 1 digits1) st)" "m2 \<in> set (ms ordinal m1)"
    unfolding ms_Seq_mem by blast
  from ms_consumes[OF m(1)] obtain u where u: "st_rest st = u @ st_rest m1" unfolding consumes_def by blast
  from ordinal_alpha[OF m(2)] obtain a t where "st_rest m1 = a # t" "is_alpha a" by blast
  with u show ?thesis by auto
qed

lemma no_alpha_no_match:
  assumes "list_all (\<lambda>c. \<not> is_alpha c) s"
  shows "match_re ggRe s = None \<and> match_re recurringRe s = None"
proof
  show "match_re ggRe s = None"
  proof (rule match_none)
    fix k x assume "x \<in> set (ms ggRe (MState k (drop k s) no_caps))"
    then have "\<exists>a \<in> set (st_rest (MState k (drop k s) no_caps)). is_alpha a"
      unfolding ggRe_def seqs.simps by (rule ordinal_date_alpha)
    then obtain a where "a \<in> set (drop k s)" "is_alpha a" by auto
    with assms show False by (auto simp: list_all_iff dest: in_set_dropD)
  qed
  show "match_re recurringRe s = None"
  proof (rule match_none)
    fix k x assume "x \<in> set (ms recurringRe (MState k (drop k s) no_caps))"
    then have "\<exists>a \<in> set (st_rest (MState k (drop k s) no_caps)). is_alpha a"
      unfolding recurringRe_def seqs.simps by (rule ordinal_date_alpha)
    then obtain a where "a \<in> set (drop k s)" "is_alpha a" by auto
    with assms show False by (auto simp: list_all_iff dest: in_set_dropD)
  qed
qed

lemma match_Bol_none: "ms r (MState 0 s no_caps) = [] \<Longrightarrow> match_re (Seq Bol r) s = None"
proof (rule match_none)
  fix k x assume e: "ms r (MState 0 s no_caps) = []" and x: "x \<in> set (ms (Seq Bol r) (MState k (drop k s) no_caps))"
  show False
  proof (cases k)
    case 0
    with x e show ?thesis by simp
  next
    case (Suc n)
    with x show ?thesis by simp
  qed
qed

lemma digit_not_alpha: "is_digit c \<Longrightarrow> \<not> is_alpha c"
  by (auto simp: is_digit_def is_alpha_def is_upper_def is_lower_def)

lemma digits_no_alpha: "list_all is_digit w \<Longrightarrow> list_all (\<lambda>c. \<not> is_alpha c) w"
  by (induction w) (auto simp: digit_not_alpha)

lemma spaces_no_alpha: "list_all is_space w \<Longrightarrow> list_all (\<lambda>c. \<not> is_alpha c) w"
  by (induction w) (use alpha_props in auto)

lemma alphas_no_digit: "list_all is_alpha w \<Longrightarrow> list_all (\<lambda>c. \<not> is_digit c) w"
  by (induction w) (use alpha_props in auto)

lemma recurring_shape:
  assumes "D \<noteq> []" "list_all is_digit D" "is_ordinal sfx" "map_of monthNames (toLowerCase M) = Some mm"
  shows "normalizeDateString y (D @ sfx @ str '' '' @ M @ str '' each year'')
         = Inr (Some (show_int (y + 1) @ str ''-'' @ mm @ str ''-'' @ padStart2 D @ str ''T00:00:00Z''))"
proof -
  let ?s = "D @ sfx @ [32] @ M @ [32] @ str ''each year''"
  have s: "D @ sfx @ str '' '' @ M @ str '' each year'' = ?s" by (simp add: str_def)
  from month_name[OF assms(4)] have m: "M \<noteq> []" "list_all is_alpha M" "monthMap (toLowerCase M) = Some mm"
    by simp_all
  from assms(3) have o: "list_all is_alpha sfx" by (rule ordinal_cases)
  have "list_all (\<lambda>c. \<not> is_digit c) (sfx @ [32] @ M @ [32] @ str ''each year'')"
    using alphas_no_digit[OF o] alphas_no_digit[OF m(2)] by (simp add: str_def is_digit_def)
  from gg_no_match[OF assms(2) this] have g: "ggRule ?s = Inr None" by (simp add: ggRule_def)
  from recurring_match[OF assms(1,2,3) m(1,2)] obtain mr where
    mr: "match_re recurringRe ?s = Some mr" "m_caps mr 1 = Some D" "m_caps mr 2 = Some M" by blast
  have r: "recurringRule y ?s
      = Inr (Some (show_int (y + 1) @ str ''-'' @ mm @ str ''-'' @ padStart2 D @ time_suffix))"
    using mr m(3) by (simp add: recurringRule_def receiver_def bind_Inr)
  from assms(1) have "?s \<noteq> []" by simp
  then show ?thesis unfolding s normalizeDateString_def g r by (simp add: bind_Inr time_suffix_def)
qed

lemma jp_match:
  assumes "length Y = 4" "list_all is_digit Y" "length M = 2" "list_all is_digit M"
    "length D = 2" "list_all is_digit D"
  shows "\<exists>mr. match_re jpRe (Y @ str ''/'' @ M @ str ''/'' @ D) = Some mr
           \<and> m_caps mr 1 = Some Y \<and> m_caps mr 2 = Some M \<and> m_caps mr 3 = Some D"
proof -
  from assms(1,2) obtain a b c e where Y: "Y = [a, b, c, e]" "is_digit a" "is_digit b" "is_digit c" "is_digit e"
    by (auto dest!: len4)
  from assms(3,4) obtain f g where M: "M = [f, g]" "is_digit f" "is_digit g" by (auto dest!: len2)
  from assms(5,6) obtain h i where D: "D = [h, i]" "is_digit h" "is_digit i" by (auto dest!: len2)
  let ?s = "Y @ str ''/'' @ M @ str ''/'' @ D"
  let ?c1 = "no_caps(1 := Some Y)"
  let ?c2 = "?c1(2 := Some M)"
  let ?c3 = "?c2(3 := Some D)"
  have l: "length (str ''/'') = 1" by (simp add: str_def)
  have "first digit4 (MState 0 ([a, b, c, e] @ (str ''/'' @ M @ str ''/'' @ D)) no_caps)
      (MState (0 + 4) (str ''/'' @ M @ str ''/'' @ D) no_caps)"
    by (rule first_digit4) (use Y in simp_all)
  from first_Group_state[OF this, of 1]
  have f1: "first (Group 1 digit4) (MState 0 ?s no_caps) (MState 4 (str ''/'' @ M @ str ''/'' @ D) ?c1)"
    by (simp add: Y(1))
  have f2: "first (Lit (str ''/'')) (MState 4 (str ''/'' @ (M @ str ''/'' @ D)) ?c1)
      (MState (4 + length (str ''/'')) (M @ str ''/'' @ D) ?c1)"
    by (rule first_Lit)
  have "first digit2 (MState 5 ([f, g] @ (str ''/'' @ D)) ?c1) (MState (5 + 2) (str ''/'' @ D) ?c1)"
    by (rule first_digit2) (use M in simp_all)
  from first_Group_state[OF this, of 2]
  have f3: "first (Group 2 digit2) (MState 5 (M @ str ''/'' @ D) ?c1) (MState 7 (str ''/'' @ D) ?c2)"
    by (simp add: M(1))
  have f4: "first (Lit (str ''/'')) (MState 7 (str ''/'' @ D) ?c2) (MState (7 + length (str ''/'')) D ?c2)"
    by (rule first_Lit)
  have "first digit2 (MState 8 ([h, i] @ []) ?c2) (MState (8 + 2) [] ?c2)"
    by (rule first_digit2) (use D in simp_all)
  from first_Group_state[OF this, of 3]
  have f5: "first (Group 3 digit2) (MState 8 D ?c2) (MState 10 [] ?c3)"
    by (simp add: D(1))
  have f6: "first Eol (MState 10 [] ?c3) (MState 10 [] ?c3)" by (rule first_Eol)
  have "first (Seq (Group 3 digit2) Eol) (MState 8 D ?c2) (MState 10 [] ?c3)"
    by (rule first_Seq[OF f5 f6])
  then have "first (Seq (Lit (str ''/'')) (Seq (Group 3 digit2) Eol)) (MState 7 (str ''/'' @ D) ?c2)
      (MState 10 [] ?c3)"
    using first_Seq[OF f4] by (simp add: l)
  then have "first (Seq (Group 2 digit2) (Seq (Lit (str ''/'')) (Seq (Group 3 digit2) Eol)))
      (MState 5 (M @ str ''/'' @ D) ?c1) (MState 10 [] ?c3)"
    by (rule first_Seq[OF f3])
  then have "first (Seq (Lit (str ''/'')) (Seq (Group 2 digit2) (Seq (Lit (str ''/'')) (Seq (Group 3 digit2) Eol))))
      (MState 4 (str ''/'' @ M @ str ''/'' @ D) ?c1) (MState 10 [] ?c3)"
    using first_Seq[OF f2] by (simp add: l)
  then have "first (Seq (Group 1 digit4) (Seq (Lit (str ''/'')) (Seq (Group 2 digit2)
        (Seq (Lit (str ''/'')) (Seq (Group 3 digit2) Eol))))) (MState 0 ?s no_caps) (MState 10 [] ?c3)"
    by (rule first_Seq[OF f1])
  then have "first jpRe (MState 0 ?s no_caps) (MState 10 [] ?c3)"
    unfolding jpRe_def seqs.simps by (rule first_Seq[OF first_Bol])
  from first_match[OF this] show ?thesis by simp
qed

lemma jp_shape:
  assumes "length Y = 4" "list_all is_digit Y" "length M = 2" "list_all is_digit M"
    "length D = 2" "list_all is_digit D"
  shows "normalizeDateString y (Y @ str ''/'' @ M @ str ''/'' @ D)
         = Inr (Some (Y @ str ''-'' @ M @ str ''-'' @ D @ str ''T00:00:00Z''))"
proof -
  let ?s = "Y @ str ''/'' @ M @ str ''/'' @ D"
  have "list_all (\<lambda>c. \<not> is_alpha c) ?s"
    using digits_no_alpha[OF assms(2)] digits_no_alpha[OF assms(4)] digits_no_alpha[OF assms(6)]
    by (simp add: str_def is_alpha_def is_upper_def is_lower_def)
  from no_alpha_no_match[OF this] have n: "ggRule ?s = Inr None" "recurringRule y ?s = Inr None"
    by (simp_all add: ggRule_def recurringRule_def)
  from jp_match[OF assms] obtain mr where
    mr: "match_re jpRe ?s = Some mr" "m_caps mr 1 = Some Y" "m_caps mr 2 = Some M" "m_caps mr 3 = Some D"
    by blast
  have d: "digitRule jpRe ?s = Some (Y @ str ''-'' @ M @ str ''-'' @ D @ time_suffix)"
    using mr by (simp add: digitRule_def interpolate_def)
  from assms(1) have "?s \<noteq> []" by auto
  then show ?thesis unfolding normalizeDateString_def n d by (simp add: bind_Inr time_suffix_def)
qed

lemma first_opt_dot:
  "tl_dot = [] \<or> tl_dot = str ''.'' \<Longrightarrow>
   first (Seq (Opt (Lit (str ''.''))) Eol) (MState p tl_dot c) (MState (p + length tl_dot) [] c)"
proof (erule disjE)
  assume e: "tl_dot = []"
  have "ms (Lit (str ''.'')) (MState p [] c) = []" by (simp add: str_def)
  then have "first (Opt (Lit (str ''.''))) (MState p [] c) (MState p [] c)"
    unfolding Opt_def by (rule first_Alt2) (rule first_Eps)
  from first_Seq[OF this first_Eol] show ?thesis by (simp add: e)
next
  assume e: "tl_dot = str ''.''"
  have "first (Lit (str ''.'')) (MState p (str ''.'' @ []) c) (MState (p + length (str ''.'')) [] c)"
    by (rule first_Lit)
  then have "first (Opt (Lit (str ''.''))) (MState p (str ''.'') c) (MState (p + length (str ''.'')) [] c)"
    unfolding Opt_def using first_Alt1 by simp
  from first_Seq[OF this first_Eol] show ?thesis by (simp add: e)
qed

lemma kr_match:
  assumes "length Y = 4" "list_all is_digit Y" "length M = 2" "list_all is_digit M"
    "length D = 2" "list_all is_digit D" "list_all is_space W1" "list_all is_space W2"
    "tl_dot = [] \<or> tl_dot = str ''.''"
  shows "\<exists>mr. match_re krRe (Y @ str ''.'' @ W1 @ M @ str ''.'' @ W2 @ D @ tl_dot) = Some mr
           \<and> m_caps mr 1 = Some Y \<and> m_caps mr 2 = Some M \<and> m_caps mr 3 = Some D"
proof -
  from assms(1,2) obtain a b c e where Y: "Y = [a, b, c, e]" "is_digit a" "is_digit b" "is_digit c" "is_digit e"
    by (auto dest!: len4)
  from assms(3,4) obtain f g where M: "M = [f, g]" "is_digit f" "is_digit g" by (auto dest!: len2)
  from assms(5,6) obtain h i where D: "D = [h, i]" "is_digit h" "is_digit i" by (auto dest!: len2)
  let ?s = "Y @ str ''.'' @ W1 @ M @ str ''.'' @ W2 @ D @ tl_dot"
  let ?c1 = "no_caps(1 := Some Y)"
  let ?c2 = "?c1(2 := Some M)"
  let ?c3 = "?c2(3 := Some D)"
  let ?p2 = "5 + length W1"
  let ?p3 = "?p2 + 3 + length W2"
  have l: "length (str ''.'') = 1" by (simp add: str_def)
  have "first digit4 (MState 0 ([a, b, c, e] @ (str ''.'' @ W1 @ M @ str ''.'' @ W2 @ D @ tl_dot)) no_caps)
      (MState (0 + 4) (str ''.'' @ W1 @ M @ str ''.'' @ W2 @ D @ tl_dot) no_caps)"
    by (rule first_digit4) (use Y in simp_all)
  from first_Group_state[OF this, of 1]
  have f1: "first (Group 1 digit4) (MState 0 ?s no_caps)
      (MState 4 (str ''.'' @ W1 @ M @ str ''.'' @ W2 @ D @ tl_dot) ?c1)"
    by (simp add: Y(1))
  have f2: "first (Lit (str ''.'')) (MState 4 (str ''.'' @ (W1 @ M @ str ''.'' @ W2 @ D @ tl_dot)) ?c1)
      (MState (4 + length (str ''.'')) (W1 @ M @ str ''.'' @ W2 @ D @ tl_dot) ?c1)"
    by (rule first_Lit)
  have f3: "first spaces0 (MState 5 (W1 @ (M @ str ''.'' @ W2 @ D @ tl_dot)) ?c1)
      (MState ?p2 (M @ str ''.'' @ W2 @ D @ tl_dot) ?c1)"
    unfolding spaces0_def
    by (rule first_star_run) (use assms(7) M not_starts_misc in \<open>simp_all add: cls_fun\<close>)
  have "first digit2 (MState ?p2 ([f, g] @ (str ''.'' @ W2 @ D @ tl_dot)) ?c1)
      (MState (?p2 + 2) (str ''.'' @ W2 @ D @ tl_dot) ?c1)"
    by (rule first_digit2) (use M in simp_all)
  from first_Group_state[OF this, of 2]
  have f4: "first (Group 2 digit2) (MState ?p2 (M @ str ''.'' @ W2 @ D @ tl_dot) ?c1)
      (MState (?p2 + 2) (str ''.'' @ W2 @ D @ tl_dot) ?c2)"
    by (simp add: M(1))
  have f5: "first (Lit (str ''.'')) (MState (?p2 + 2) (str ''.'' @ (W2 @ D @ tl_dot)) ?c2)
      (MState (?p2 + 2 + length (str ''.'')) (W2 @ D @ tl_dot) ?c2)"
    by (rule first_Lit)
  have f6: "first spaces0 (MState (?p2 + 3) (W2 @ (D @ tl_dot)) ?c2) (MState ?p3 (D @ tl_dot) ?c2)"
    unfolding spaces0_def
    by (rule first_star_run) (use assms(8) D not_starts_misc in \<open>simp_all add: cls_fun\<close>)
  have "first digit2 (MState ?p3 ([h, i] @ tl_dot) ?c2) (MState (?p3 + 2) tl_dot ?c2)"
    by (rule first_digit2) (use D in simp_all)
  from first_Group_state[OF this, of 3]
  have f7: "first (Group 3 digit2) (MState ?p3 (D @ tl_dot) ?c2) (MState (?p3 + 2) tl_dot ?c3)"
    by (simp add: D(1))
  have f8: "first (Seq (Opt (Lit (str ''.''))) Eol) (MState (?p3 + 2) tl_dot ?c3)
      (MState (?p3 + 2 + length tl_dot) [] ?c3)"
    by (rule first_opt_dot[OF assms(9)])
  let ?x = "MState (?p3 + 2 + length tl_dot) [] ?c3"
  have "first (Seq (Group 3 digit2) (Seq (Opt (Lit (str ''.''))) Eol)) (MState ?p3 (D @ tl_dot) ?c2) ?x"
    by (rule first_Seq[OF f7 f8])
  then have "first (Seq spaces0 (Seq (Group 3 digit2) (Seq (Opt (Lit (str ''.''))) Eol)))
      (MState (?p2 + 3) (W2 @ D @ tl_dot) ?c2) ?x"
    using first_Seq[OF f6] by simp
  then have "first (Seq (Lit (str ''.'')) (Seq spaces0 (Seq (Group 3 digit2) (Seq (Opt (Lit (str ''.''))) Eol))))
      (MState (?p2 + 2) (str ''.'' @ W2 @ D @ tl_dot) ?c2) ?x"
    using first_Seq[OF f5] by (simp add: l)
  then have "first (Seq (Group 2 digit2) (Seq (Lit (str ''.'')) (Seq spaces0 (Seq (Group 3 digit2)
      (Seq (Opt (Lit (str ''.''))) Eol))))) (MState ?p2 (M @ str ''.'' @ W2 @ D @ tl_dot) ?c1) ?x"
    by (rule first_Seq[OF f4])
  then have "first (Seq spaces0 (Seq (Group 2 digit2) (Seq (Lit (str ''.'')) (Seq spaces0 (Seq (Group 3 digit2)
      (Seq (Opt (Lit (str ''.''))) Eol)))))) (MState 5 (W1 @ M @ str ''.'' @ W2 @ D @ tl_dot) ?c1) ?x"
    using first_Seq[OF f3] by simp
  then have "first (Seq (Lit (str ''.'')) (Seq spaces0 (Seq (Group 2 digit2) (Seq (Lit (str ''.''))
      (Seq spaces0 (Seq (Group 3 digit2) (Seq (Opt (Lit (str ''.''))) Eol)))))))
      (MState 4 (str ''.'' @ W1 @ M @ str ''.'' @ W2 @ D @ tl_dot) ?c1) ?x"
    using first_Seq[OF f2] by (simp add: l)
  then have "first (Seq (Group 1 digit4) (Seq (Lit (str ''.'')) (Seq spaces0 (Seq (Group 2 digit2)
      (Seq (Lit (str ''.'')) (Seq spaces0 (Seq (Group 3 digit2) (Seq (Opt (Lit (str ''.''))) Eol))))))))
      (MState 0 ?s no_caps) ?x"
    by (rule first_Seq[OF f1])
  then have "first krRe (MState 0 ?s no_caps) ?x"
    unfolding krRe_def seqs.simps by (rule first_Seq[OF first_Bol])
  from first_match[OF this] show ?thesis by simp
qed

lemma jp_not_dotted:
  assumes "length Y = 4"
  shows "match_re jpRe (Y @ str ''.'' @ t) = None"
  unfolding jpRe_def seqs.simps
proof (rule match_Bol_none)
  let ?r = "Seq (Lit (str ''/'')) (Seq (Group 2 digit2) (Seq (Lit (str ''/'')) (Seq (Group 3 digit2) Eol)))"
  from assms obtain a b c e where Y: "Y = [a, b, c, e]" by (auto dest!: len4)
  have "set (ms (Seq (Group 1 digit4) ?r) (MState 0 (Y @ str ''.'' @ t) no_caps)) = {}"
  proof (rule equals0I)
    fix x assume "x \<in> set (ms (Seq (Group 1 digit4) ?r) (MState 0 (Y @ str ''.'' @ t) no_caps))"
    then obtain m1 m2 where m: "m1 \<in> set (ms (Group 1 digit4) (MState 0 (Y @ str ''.'' @ t) no_caps))"
      "m2 \<in> set (ms (Lit (str ''/'')) m1)"
      unfolding ms_Seq_mem by blast
    from m(1) obtain y0 where y0: "y0 \<in> set (ms digit4 (MState 0 (Y @ str ''.'' @ t) no_caps))"
      "m1 = set_cap 1 (MState 0 (Y @ str ''.'' @ t) no_caps) y0"
      unfolding ms_Group_mem by blast
    from y0(1) obtain a' b' c' e' where
      "st_rest (MState 0 (Y @ str ''.'' @ t) no_caps) = a' # b' # c' # e' # st_rest y0"
      by (rule ms_digit4_mem)
    then have "st_rest m1 = str ''.'' @ t" by (simp add: Y y0(2))
    with m(2) show False unfolding ms_Lit_mem by (simp add: str_def)
  qed
  then show "ms (Seq (Group 1 digit4) ?r) (MState 0 (Y @ str ''.'' @ t) no_caps) = []" by simp
qed

lemma kr_shape:
  assumes "length Y = 4" "list_all is_digit Y" "length M = 2" "list_all is_digit M"
    "length D = 2" "list_all is_digit D" "list_all is_space W1" "list_all is_space W2"
    "tl_dot = [] \<or> tl_dot = str ''.''"
  shows "normalizeDateString y (Y @ str ''.'' @ W1 @ M @ str ''.'' @ W2 @ D @ tl_dot)
         = Inr (Some (Y @ str ''-'' @ M @ str ''-'' @ D @ str ''T00:00:00Z''))"
proof -
  let ?s = "Y @ str ''.'' @ W1 @ M @ str ''.'' @ W2 @ D @ tl_dot"
  from assms(9) have "list_all (\<lambda>c. \<not> is_alpha c) tl_dot"
    by (auto simp: str_def is_alpha_def is_upper_def is_lower_def)
  then have "list_all (\<lambda>c. \<not> is_alpha c) ?s"
    using digits_no_alpha[OF assms(2)] digits_no_alpha[OF assms(4)] digits_no_alpha[OF assms(6)]
      spaces_no_alpha[OF assms(7)] spaces_no_alpha[OF assms(8)]
    by (simp add: str_def is_alpha_def is_upper_def is_lower_def)
  from no_alpha_no_match[OF this] have n: "ggRule ?s = Inr None" "recurringRule y ?s = Inr None"
    by (simp_all add: ggRule_def recurringRule_def)
  from jp_not_dotted[OF assms(1)] have j: "digitRule jpRe ?s = None" by (simp add: digitRule_def)
  from kr_match[OF assms] obtain mr where
    mr: "match_re krRe ?s = Some mr" "m_caps mr 1 = Some Y" "m_caps mr 2 = Some M" "m_caps mr 3 = Some D"
    by blast
  have d: "digitRule krRe ?s = Some (Y @ str ''-'' @ M @ str ''-'' @ D @ time_suffix)"
    using mr by (simp add: digitRule_def interpolate_def)
  from assms(1) have "?s \<noteq> []" by auto
  then show ?thesis unfolding normalizeDateString_def n j d by (simp add: bind_Inr time_suffix_def)
qed

lemma no_month_gg: "no_month ggRe s \<Longrightarrow> ggRule s = Inr None"
  by (auto simp: no_month_def ggRule_def receiver_def bind_def split: option.splits)

lemma no_month_recurring: "no_month recurringRe s \<Longrightarrow> recurringRule y s = Inr None"
  by (auto simp: no_month_def recurringRule_def receiver_def bind_def split: option.splits)

lemma match_none_digitRule: "match_re re s = None \<Longrightarrow> digitRule re s = None"
  by (simp add: digitRule_def)

lemma first_rule_wins:
  assumes "s \<noteq> []"
  shows "ggRule s = Inr (Some r) \<Longrightarrow> normalizeDateString y s = Inr (Some r)"
    and "ggRule s = Inr None \<Longrightarrow> recurringRule y s = Inr (Some r)
          \<Longrightarrow> normalizeDateString y s = Inr (Some r)"
    and "ggRule s = Inr None \<Longrightarrow> recurringRule y s = Inr None \<Longrightarrow> digitRule jpRe s = Some r
          \<Longrightarrow> normalizeDateString y s = Inr (Some r)"
    and "ggRule s = Inr None \<Longrightarrow> recurringRule y s = Inr None \<Longrightarrow> digitRule jpRe s = None
          \<Longrightarrow> digitRule krRe s = Some r \<Longrightarrow> normalizeDateString y s = Inr (Some r)"
    and "ggRule s = Inr None \<Longrightarrow> recurringRule y s = Inr None \<Longrightarrow> digitRule jpRe s = None
          \<Longrightarrow> digitRule krRe s = None \<Longrightarrow> normalizeDateString y s = Inr (Some s)"
  using assms by (simp_all add: normalizeDateString_def bind_Inr)

lemmas ev_shape = str_def is_digit_def is_space_def is_upper_def lower_def toLowerCase_def
  is_ordinal_def ordinals_def monthNames_def padStart2_def

lemma example_gg:
  "normalizeDateString y (str ''30th April 2003'') = Inr (Some (str ''2003-04-30T00:00:00Z''))"
  using gg_shape[of "str ''30''" "str ''th''" "str ''April''" "str ''04''" "str ''2003''" y]
  by (simp add: ev_shape)

lemma example_jp:
  "normalizeDateString y (str ''2005/05/30'') = Inr (Some (str ''2005-05-30T00:00:00Z''))"
  using jp_shape[of "str ''2005''" "str ''05''" "str ''30''" y] by (simp add: ev_shape)

lemma example_kr:
  "normalizeDateString y (str ''2007. 03. 02.'') = Inr (Some (str ''2007-03-02T00:00:00Z''))"
  using kr_shape[of "str ''2007''" "str ''03''" "str ''02''" "str '' ''" "str '' ''" "str ''.''" y]
  by (simp add: ev_shape)

lemma example_gg_99:
  "normalizeDateString y (str ''99th April 2003'') = Inr (Some (str ''2003-04-99T00:00:00Z''))"
  using gg_shape[of "str ''99''" "str ''th''" "str ''April''" "str ''04''" "str ''2003''" y]
  by (simp add: ev_shape)

lemma example_jp_99:
  "normalizeDateString y (str ''2005/99/99'') = Inr (Some (str ''2005-99-99T00:00:00Z''))"
  using jp_shape[of "str ''2005''" "str ''99''" "str ''99''" y] by (simp add: ev_shape)

lemma example_kr_99:
  "normalizeDateString y (str ''2007. 99. 99.'') = Inr (Some (str ''2007-99-99T00:00:00Z''))"
  using kr_shape[of "str ''2007''" "str ''99''" "str ''99''" "str '' ''" "str '' ''" "str ''.''" y]
  by (simp add: ev_shape)

lemma rules_on_iso:
  "no_month ggRe (str ''2021-03-04T05:06:07Z'')" "no_month recurringRe (str ''2021-03-04T05:06:07Z'')"
  "match_re jpRe (str ''2021-03-04T05:06:07Z'') = None" "match_re krRe (str ''2021-03-04T05:06:07Z'') = None"
  by (simp_all add: no_month_def ev_chars ev_regex ev_fault ev_date)

lemma rules_on_examples:
  "ggRule (str ''30th April 2003'') = Inr (Some (str ''2003-04-30T00:00:00Z''))"
  "ggRule (str ''30th April each year'') = Inr None"
  "recurringRule 2025 (str ''30th April each year'') = Inr (Some (str ''2026-04-30T00:00:00Z''))"
  "ggRule (str ''2005/05/30'') = Inr None"
  "recurringRule 2025 (str ''2005/05/30'') = Inr None"
  "digitRule jpRe (str ''2005/05/30'') = Some (str ''2005-05-30T00:00:00Z'')"
  "ggRule (str ''2007. 03. 02.'') = Inr None"
  "recurringRule 2025 (str ''2007. 03. 02.'') = Inr None"
  "digitRule jpRe (str ''2007. 03. 02.'') = None"
  "digitRule krRe (str ''2007. 03. 02.'') = Some (str ''2007-03-02T00:00:00Z'')"
  by (simp_all add: ev_chars ev_regex ev_fault ev_date)

section \<open>Claims settled by running the program\<close>

text \<open>
  Claim C2. The status fallback is written \<open>parseMultipleFields('Domain Status') ||
  parseMultipleFields('Status') || parseMultipleFields('state')\<close>, and an empty array is
  truthy: the first operand is always the result. On the text \<open>Status: active\<close>, which
  has no \<open>Domain Status\<close> line, the multi-value extractor finds \<open>active\<close> under the
  label \<open>Status\<close>, yet the status of the record is absent.
\<close>

theorem C2_status_fallback_never_reaches_second_synonym:
  "parseMultipleFields (str ''Status: active'') (str ''Domain Status'') = Inr []
   \<and> parseMultipleFields (str ''Status: active'') (str ''Status'') = Inr [str ''active'']
   \<and> parseStatus (str ''Status: active'') = Inr None"
  by (simp add: ev_chars ev_regex ev_fault ev_fields ev_status)

text \<open>
  Claim C3. The colon strategy strips the trailing dot and the address: the line
  \<open>Nserver: ns1.yandex.ru. 213.180.193.1\<close> gives \<open>ns1.yandex.ru\<close>. The block strategy
  and the bracket strategy keep only the first word and leave its trailing dot.
\<close>

theorem C3_block_and_bracket_keep_trailing_dot:
  "parseNameservers (str ''Nserver: ns1.yandex.ru. 213.180.193.1'') = Inr (Some [str ''ns1.yandex.ru''])
   \<and> parseNameservers (str ''Name servers:'' @ [10] @ str ''    ns1.example.com.'' @ [10, 10])
       = Inr (Some [str ''ns1.example.com.''])
   \<and> parseNameservers (str ''[Name Server]   ns1.example.com.'') = Inr (Some [str ''ns1.example.com.''])"
  by (simp add: ev_chars ev_regex ev_fault ev_fields ev_ns)

text \<open>
  Claim C4. The colon strategy takes \<open>match.split(':')[1]\<close>, the piece between the first
  and the second colon of the match, not all that follows the first colon: of the line
  \<open>nserver: 2001:db8::1\<close> it keeps \<open>2001\<close>.
\<close>

theorem C4_colon_value_cut_at_second_colon:
  "parseNameservers (str ''nserver: 2001:db8::1'') = Inr (Some [str ''2001''])"
  by (simp add: ev_chars ev_regex ev_fault ev_fields ev_ns)

section \<open>Claims proved for every input\<close>

text \<open>
  Claim C8. For every text, every fallback name and every moment of the call,
  \<open>parseWhoisData\<close> returns a record: no method is ever called on \<open>undefined\<close> and no
  \<open>undefined\<close> is stored in the record. A text in which nothing matches gives the
  record whose fields are all absent, the domain name being the fallback.
\<close>

theorem C8_parse_never_raises:
  "(\<exists>r. parseWhoisData nowYear whoisText fallbackName = Inr r)
   \<and> parseWhoisData nowYear [] fallbackName =
       Inr \<lparr>domainName = fallbackName, registrar = None, creationDate = None, expirationDate = None,
            nameservers = None, registrant = None, status = None, dnssec = None, lastModified = None\<rparr>"
proof
  show "\<exists>r. parseWhoisData nowYear whoisText fallbackName = Inr r"
    by (rule parseWhoisData_fields[of whoisText nowYear fallbackName]) blast
  show "parseWhoisData nowYear [] fallbackName =
       Inr \<lparr>domainName = fallbackName, registrar = None, creationDate = None, expirationDate = None,
            nameservers = None, registrant = None, status = None, dnssec = None, lastModified = None\<rparr>"
    by (rule empty_text_record)
qed

theorem C8_parse_never_raises_witness:
  "\<exists>r. parseWhoisData 2025 (str ''Registrar: '') (Some []) = Inr r"
  using C8_parse_never_raises[of 2025 "str ''Registrar: ''" "Some []"] by blast

text \<open>
  Claim C9. The name servers of the record are what \<open>parseNameservers\<close> returns, and
  that is either absent or a list with at least one entry, never the empty list. When
  none of the three strategies (blocks, colon lines, bracket lines) gives a list, the
  field is absent.
\<close>

theorem C9_nameservers_absent_or_nonempty:
  "(\<exists>r. parseWhoisData nowYear whoisText fallbackName = Inr r
        \<and> parseNameservers whoisText = Inr (nameservers r)
        \<and> (case nameservers r of None \<Rightarrow> True | Some servers \<Rightarrow> 0 < length servers))
   \<and> (nsBlocks whoisText multilinePatterns = Inr None \<and> nsColon whoisText colonPatterns = Inr None
        \<and> nsBracket whoisText = Inr None
      \<longrightarrow> parseNameservers whoisText = Inr None)"
proof
  show "\<exists>r. parseWhoisData nowYear whoisText fallbackName = Inr r
        \<and> parseNameservers whoisText = Inr (nameservers r)
        \<and> (case nameservers r of None \<Rightarrow> True | Some servers \<Rightarrow> 0 < length servers)"
  proof (rule parseWhoisData_fields[of whoisText nowYear fallbackName])
    fix pd rg cr ex ns rt sts sec md
    assume "parseNameservers whoisText = Inr ns" "opt_nonempty ns"
      and "parseWhoisData nowYear whoisText fallbackName =
        Inr \<lparr>domainName = orFallback pd fallbackName, registrar = rg,
            creationDate = cr, expirationDate = ex, nameservers = ns,
            registrant = rt, status = sts, dnssec = sec, lastModified = md\<rparr>"
    then show ?thesis by (simp add: opt_nonempty_def)
  qed
  show "nsBlocks whoisText multilinePatterns = Inr None \<and> nsColon whoisText colonPatterns = Inr None
        \<and> nsBracket whoisText = Inr None
      \<longrightarrow> parseNameservers whoisText = Inr None"
    by (simp add: parseNameservers_def bind_Inr)
qed

theorem C9_nameservers_absent_or_nonempty_witness:
  "parseNameservers (str ''no servers'') = Inr None
   \<and> (\<exists>r. parseWhoisData 2025 (str ''no servers'') None = Inr r \<and> nameservers r = None)"
proof -
  have n: "nsBlocks (str ''no servers'') multilinePatterns = Inr None"
    "nsColon (str ''no servers'') colonPatterns = Inr None"
    "nsBracket (str ''no servers'') = Inr None"
    by (simp_all add: ev_chars ev_regex ev_fault ev_fields ev_ns)
  from C9_nameservers_absent_or_nonempty[of 2025 "str ''no servers''" None] n
  show ?thesis by auto
qed

text \<open>
  Claim C6, as the program has it. The record is always returned, and in it: registrar,
  registrant, dnssec and lastModified, when present, are trimmed (\<open>trim x = x\<close>); the
  two dates, when present, are trimmed and not empty; the domain name is either the
  fallback handed in by the caller, as it is, or a trimmed, non-empty string found in
  the text.
\<close>

theorem C6_fields_trimmed:
  "\<exists>r. parseWhoisData nowYear whoisText fallbackName = Inr r
     \<and> opt_trimmed (registrar r) \<and> opt_trimmed (registrant r) \<and> opt_trimmed (dnssec r)
     \<and> opt_trimmed (lastModified r) \<and> opt_date (creationDate r) \<and> opt_date (expirationDate r)
     \<and> (domainName r = fallbackName \<or> (\<exists>d. domainName r = Some d \<and> trim d = d \<and> 0 < length d))"
proof (rule parseWhoisData_fields[of whoisText nowYear fallbackName])
  fix pd rg cr ex ns rt sts sec md
  assume w: "parseWhoisData nowYear whoisText fallbackName =
        Inr \<lparr>domainName = orFallback pd fallbackName, registrar = rg,
            creationDate = cr, expirationDate = ex, nameservers = ns,
            registrant = rt, status = sts, dnssec = sec, lastModified = md\<rparr>"
    and t: "opt_trimmed pd" "opt_trimmed rg" "opt_date cr" "opt_date ex" "opt_trimmed rt"
      "opt_trimmed sec" "opt_trimmed md"
  from orFallback_cases[OF t(1), of fallbackName] t w show ?thesis by simp
qed

theorem C6_fields_trimmed_witness:
  "\<exists>r. parseWhoisData 2025 (str ''Registrar: A B '') None = Inr r \<and> opt_trimmed (registrar r)
     \<and> opt_date (creationDate r)"
  using C6_fields_trimmed[of 2025 "str ''Registrar: A B ''" None] by blast

text \<open>
  The claim as stated fails: on the text \<open>Registrar: \<close> (the label, a colon and one
  space) with the empty string as fallback, the domain name of the record is the empty
  string, and so is the registrar.
\<close>

theorem C6_empty_strings_in_record:
  "parseWhoisData 2025 (str ''Registrar: '') (Some []) =
   Inr \<lparr>domainName = Some [], registrar = Some [], creationDate = None, expirationDate = None,
        nameservers = None, registrant = None, status = None, dnssec = None, lastModified = None\<rparr>"
  by (simp add: ev_chars ev_regex ev_fault ev_fields ev_ns ev_status ev_date ev_dates ev_engine)

text \<open>
  Claim C7, as the program has it. The year of the call is an input of the model. Two
  calls with the same text and fallback, in the years \<open>y1\<close> and \<open>y2\<close>, both return a
  record; the two records agree on every field but the two dates; they agree on a date
  too unless the raw date text is of the recurring form matched by the \<open>each year\<close>
  pattern; and they are equal when the years are.
\<close>

theorem C7_only_recurring_dates_depend_on_the_year:
  "\<exists>r1 r2. parseWhoisData y1 whoisText fallbackName = Inr r1
      \<and> parseWhoisData y2 whoisText fallbackName = Inr r2
      \<and> domainName r1 = domainName r2 \<and> registrar r1 = registrar r2
      \<and> nameservers r1 = nameservers r2 \<and> registrant r1 = registrant r2
      \<and> status r1 = status r2 \<and> dnssec r1 = dnssec r2 \<and> lastModified r1 = lastModified r2
      \<and> (not_recurring (firstRawDate whoisText creationPatterns) \<longrightarrow> creationDate r1 = creationDate r2)
      \<and> (not_recurring (firstRawDate whoisText expiryPatterns) \<longrightarrow> expirationDate r1 = expirationDate r2)
      \<and> (y1 = y2 \<longrightarrow> r1 = r2)"
proof (rule parseWhoisData_fields[of whoisText y1 fallbackName])
  fix pd rg cr ex ns rt sts sec md
  assume a: "parseField whoisText (str ''Domain'') [str ''Domain Name'', str ''domain name'', str ''domain''] = Inr pd"
    "parseField whoisText (str ''Registrar'') [str ''REGISTRAR'', str ''registrar''] = Inr rg"
    "parseCreationDate y1 whoisText = Inr cr"
    "parseExpiryDate y1 whoisText = Inr ex"
    "parseNameservers whoisText = Inr ns"
    "parseField whoisText (str ''Registrant'') [str ''registrant name'', str ''org'', str ''Organization''] = Inr rt"
    "parseStatus whoisText = Inr sts"
    "parseField whoisText (str ''DNSSEC'') [str ''Signed'', str ''dnssec''] = Inr sec"
    "parseField whoisText (str ''Last Modified'') [str ''last modified'', str ''Last Update'', str ''Changed'', str ''changed''] = Inr md"
    "parseWhoisData y1 whoisText fallbackName = Inr \<lparr>domainName = orFallback pd fallbackName, registrar = rg,
            creationDate = cr, expirationDate = ex, nameservers = ns,
            registrant = rt, status = sts, dnssec = sec, lastModified = md\<rparr>"
  show ?thesis
  proof (rule parseWhoisData_fields[of whoisText y2 fallbackName])
    fix pd' rg' cr' ex' ns' rt' sts' sec' md'
    assume b: "parseField whoisText (str ''Domain'') [str ''Domain Name'', str ''domain name'', str ''domain''] = Inr pd'"
      "parseField whoisText (str ''Registrar'') [str ''REGISTRAR'', str ''registrar''] = Inr rg'"
      "parseCreationDate y2 whoisText = Inr cr'"
      "parseExpiryDate y2 whoisText = Inr ex'"
      "parseNameservers whoisText = Inr ns'"
      "parseField whoisText (str ''Registrant'') [str ''registrant name'', str ''org'', str ''Organization''] = Inr rt'"
      "parseStatus whoisText = Inr sts'"
      "parseField whoisText (str ''DNSSEC'') [str ''Signed'', str ''dnssec''] = Inr sec'"
      "parseField whoisText (str ''Last Modified'') [str ''last modified'', str ''Last Update'', str ''Changed'', str ''changed''] = Inr md'"
      "parseWhoisData y2 whoisText fallbackName = Inr \<lparr>domainName = orFallback pd' fallbackName, registrar = rg',
            creationDate = cr', expirationDate = ex', nameservers = ns',
            registrant = rt', status = sts', dnssec = sec', lastModified = md'\<rparr>"
    from a b have e: "pd' = pd" "rg' = rg" "ns' = ns" "rt' = rt" "sts' = sts" "sec' = sec" "md' = md"
      by simp_all
    have c: "cr = cr'" if "not_recurring (firstRawDate whoisText creationPatterns)"
      using parseDate_clock[OF creationPatterns_caps that, of y1 y2] a(3) b(3)
      by (simp add: parseCreationDate_def)
    have x: "ex = ex'" if "not_recurring (firstRawDate whoisText expiryPatterns)"
      using parseDate_clock[OF expiryPatterns_caps that, of y1 y2] a(4) b(4)
      by (simp add: parseExpiryDate_def)
    have s: "cr = cr' \<and> ex = ex'" if "y1 = y2" using that a(3,4) b(3,4) by simp
    show ?thesis
      unfolding a(10) b(10) e using c x s by simp
  qed
qed

theorem C7_only_recurring_dates_depend_on_the_year_witness:
  "not_recurring (firstRawDate (str ''Created: 2005/05/30'') creationPatterns)
   \<and> not_recurring (firstRawDate (str ''Created: 2005/05/30'') expiryPatterns)
   \<and> (\<exists>r1 r2. parseWhoisData 2025 (str ''Created: 2005/05/30'') None = Inr r1
        \<and> parseWhoisData 2026 (str ''Created: 2005/05/30'') None = Inr r2
        \<and> creationDate r1 = creationDate r2 \<and> expirationDate r1 = expirationDate r2)"
proof -
  have n: "not_recurring (firstRawDate (str ''Created: 2005/05/30'') creationPatterns)"
    "not_recurring (firstRawDate (str ''Created: 2005/05/30'') expiryPatterns)"
    by (simp_all add: not_recurring_def ev_chars ev_regex ev_fields ev_date ev_dates)
  from C7_only_recurring_dates_depend_on_the_year[of 2025 "str ''Created: 2005/05/30''" None 2026] n
  show ?thesis by blast
qed

text \<open>
  The claim as stated fails: the text \<open>Registry fee due on 30th April each year\<close>
  parsed in 2025 and parsed in 2026 gives two different records.
\<close>

theorem C7_records_differ_across_years:
  "parseWhoisData 2025 (str ''Registry fee due on 30th April each year'') None
   \<noteq> parseWhoisData 2026 (str ''Registry fee due on 30th April each year'') None"
proof -
  let ?t = "str ''Registry fee due on 30th April each year''"
  obtain r1 where r1: "parseWhoisData 2025 ?t None = Inr r1" "parseExpiryDate 2025 ?t = Inr (expirationDate r1)"
    using parseWhoisData_projections[of 2025 ?t None] by blast
  obtain r2 where r2: "parseWhoisData 2026 ?t None = Inr r2" "parseExpiryDate 2026 ?t = Inr (expirationDate r2)"
    using parseWhoisData_projections[of 2026 ?t None] by blast
  from r1(2) r2(2) have "expirationDate r1 = Some (str ''2026-04-30T00:00:00Z'')"
    "expirationDate r2 = Some (str ''2027-04-30T00:00:00Z'')"
    by (simp_all add: fee_due_2025 fee_due_2026)
  then have "r1 \<noteq> r2" by (auto simp: str_def)
  with r1(1) r2(1) show ?thesis by simp
qed

text \<open>
  Claim C1, as the program has it. On the empty string \<open>normalizeDateString\<close> returns
  \<open>null\<close> (the guard \<open>if (!dateStr) return null\<close>); on every other string it returns a
  string and raises nothing. The rules are tried in order and the first that returns
  decides: the ordinal date, then the recurring date, then the slashed date, then the
  dotted date, and when every rule falls through the input comes back unchanged. A rule
  with a month word falls through when its pattern does not match or when the matched
  word, in lower case, is no property of the month table (\<open>no_month\<close>). Each supported
  shape gives the stamp \<open>YYYY-MM-DDT00:00:00Z\<close>: a day number, an ordinal suffix, a
  space, an English month name in any casing, a space and four digits, the day padded
  by \<open>padStart(2, '0')\<close>; four digits, a slash, two digits, a slash, two digits; four
  digits, a dot, blanks, two digits, a dot, blanks, two digits and an optional dot.
\<close>

theorem C1_normalize_string_unless_empty:
  "normalizeDateString nowYear [] = Inr None
   \<and> (s \<noteq> [] \<longrightarrow>
        (\<exists>r. normalizeDateString nowYear s = Inr (Some r))
      \<and> (ggRule s = Inr (Some r1) \<longrightarrow> normalizeDateString nowYear s = Inr (Some r1))
      \<and> (ggRule s = Inr None \<and> recurringRule nowYear s = Inr (Some r2)
          \<longrightarrow> normalizeDateString nowYear s = Inr (Some r2))
      \<and> (ggRule s = Inr None \<and> recurringRule nowYear s = Inr None \<and> digitRule jpRe s = Some r3
          \<longrightarrow> normalizeDateString nowYear s = Inr (Some r3))
      \<and> (ggRule s = Inr None \<and> recurringRule nowYear s = Inr None \<and> digitRule jpRe s = None
            \<and> digitRule krRe s = Some r4
          \<longrightarrow> normalizeDateString nowYear s = Inr (Some r4))
      \<and> (no_month ggRe s \<and> no_month recurringRe s \<and> match_re jpRe s = None \<and> match_re krRe s = None
          \<longrightarrow> normalizeDateString nowYear s = Inr (Some s)))
   \<and> (N \<noteq> [] \<and> list_all is_digit N \<and> is_ordinal sfx \<and> map_of monthNames (toLowerCase W) = Some mm
        \<and> length Y = 4 \<and> list_all is_digit Y
      \<longrightarrow> normalizeDateString nowYear (N @ sfx @ str '' '' @ W @ str '' '' @ Y)
          = Inr (Some (Y @ str ''-'' @ mm @ str ''-'' @ padStart2 N @ str ''T00:00:00Z'')))
   \<and> (length Y = 4 \<and> list_all is_digit Y \<and> length M = 2 \<and> list_all is_digit M
        \<and> length D = 2 \<and> list_all is_digit D
      \<longrightarrow> normalizeDateString nowYear (Y @ str ''/'' @ M @ str ''/'' @ D)
          = Inr (Some (Y @ str ''-'' @ M @ str ''-'' @ D @ str ''T00:00:00Z''))
        \<and> (list_all is_space W1 \<and> list_all is_space W2 \<and> (dot = [] \<or> dot = str ''.'')
           \<longrightarrow> normalizeDateString nowYear (Y @ str ''.'' @ W1 @ M @ str ''.'' @ W2 @ D @ dot)
               = Inr (Some (Y @ str ''-'' @ M @ str ''-'' @ D @ str ''T00:00:00Z''))))
   \<and> normalizeDateString nowYear (str ''30th April 2003'') = Inr (Some (str ''2003-04-30T00:00:00Z''))
   \<and> normalizeDateString nowYear (str ''2005/05/30'') = Inr (Some (str ''2005-05-30T00:00:00Z''))
   \<and> normalizeDateString nowYear (str ''2007. 03. 02.'') = Inr (Some (str ''2007-03-02T00:00:00Z''))"
proof (intro conjI impI)
  show "normalizeDateString nowYear [] = Inr None" by (rule normalizeDateString_empty)
next
  assume "s \<noteq> []"
  from normalizeDateString_total[OF this, of nowYear]
  show "\<exists>r. normalizeDateString nowYear s = Inr (Some r)" by blast
next
  assume "s \<noteq> []" "ggRule s = Inr (Some r1)"
  then show "normalizeDateString nowYear s = Inr (Some r1)" by (rule first_rule_wins(1))
next
  assume "s \<noteq> []" "ggRule s = Inr None \<and> recurringRule nowYear s = Inr (Some r2)"
  then show "normalizeDateString nowYear s = Inr (Some r2)" using first_rule_wins(2) by blast
next
  assume "s \<noteq> []"
    "ggRule s = Inr None \<and> recurringRule nowYear s = Inr None \<and> digitRule jpRe s = Some r3"
  then show "normalizeDateString nowYear s = Inr (Some r3)" using first_rule_wins(3) by blast
next
  assume "s \<noteq> []"
    "ggRule s = Inr None \<and> recurringRule nowYear s = Inr None \<and> digitRule jpRe s = None
      \<and> digitRule krRe s = Some r4"
  then show "normalizeDateString nowYear s = Inr (Some r4)" using first_rule_wins(4) by blast
next
  assume n: "s \<noteq> []"
    and f: "no_month ggRe s \<and> no_month recurringRe s \<and> match_re jpRe s = None \<and> match_re krRe s = None"
  from f have "ggRule s = Inr None" "recurringRule nowYear s = Inr None"
    "digitRule jpRe s = None" "digitRule krRe s = None"
    by (simp_all add: no_month_gg no_month_recurring match_none_digitRule)
  with n show "normalizeDateString nowYear s = Inr (Some s)" by (rule first_rule_wins(5))
next
  assume "N \<noteq> [] \<and> list_all is_digit N \<and> is_ordinal sfx \<and> map_of monthNames (toLowerCase W) = Some mm
        \<and> length Y = 4 \<and> list_all is_digit Y"
  then show "normalizeDateString nowYear (N @ sfx @ str '' '' @ W @ str '' '' @ Y)
          = Inr (Some (Y @ str ''-'' @ mm @ str ''-'' @ padStart2 N @ str ''T00:00:00Z''))"
    using gg_shape[of N sfx W mm Y nowYear] by blast
next
  assume "length Y = 4 \<and> list_all is_digit Y \<and> length M = 2 \<and> list_all is_digit M
        \<and> length D = 2 \<and> list_all is_digit D"
  then show "normalizeDateString nowYear (Y @ str ''/'' @ M @ str ''/'' @ D)
          = Inr (Some (Y @ str ''-'' @ M @ str ''-'' @ D @ str ''T00:00:00Z''))"
    using jp_shape[of Y M D nowYear] by blast
next
  assume "length Y = 4 \<and> list_all is_digit Y \<and> length M = 2 \<and> list_all is_digit M
        \<and> length D = 2 \<and> list_all is_digit D"
    "list_all is_space W1 \<and> list_all is_space W2 \<and> (dot = [] \<or> dot = str ''.'')"
  then show "normalizeDateString nowYear (Y @ str ''.'' @ W1 @ M @ str ''.'' @ W2 @ D @ dot)
               = Inr (Some (Y @ str ''-'' @ M @ str ''-'' @ D @ str ''T00:00:00Z''))"
    using kr_shape[of Y M D W1 W2 dot nowYear] by blast
next
  show "normalizeDateString nowYear (str ''30th April 2003'') = Inr (Some (str ''2003-04-30T00:00:00Z''))"
    by (rule example_gg)
next
  show "normalizeDateString nowYear (str ''2005/05/30'') = Inr (Some (str ''2005-05-30T00:00:00Z''))"
    by (rule example_jp)
next
  show "normalizeDateString nowYear (str ''2007. 03. 02.'') = Inr (Some (str ''2007-03-02T00:00:00Z''))"
    by (rule example_kr)
qed

theorem C1_normalize_string_unless_empty_witness:
  "normalizeDateString 2025 (str ''30th April each year'') = Inr (Some (str ''2026-04-30T00:00:00Z''))
   \<and> normalizeDateString 2025 (str ''2021-03-04T05:06:07Z'') = Inr (Some (str ''2021-03-04T05:06:07Z''))
   \<and> normalizeDateString 2025 (str ''1st May 2003'') = Inr (Some (str ''2003-05-01T00:00:00Z''))
   \<and> normalizeDateString 2025 (str ''1999/12/31'') = Inr (Some (str ''1999-12-31T00:00:00Z''))
   \<and> normalizeDateString 2025 (str ''2007.03.02'') = Inr (Some (str ''2007-03-02T00:00:00Z''))
   \<and> normalizeDateString 2025 (str ''30th April 2003'') = Inr (Some (str ''2003-04-30T00:00:00Z''))
   \<and> normalizeDateString 2025 (str ''2005/05/30'') = Inr (Some (str ''2005-05-30T00:00:00Z''))
   \<and> normalizeDateString 2025 (str ''2007. 03. 02.'') = Inr (Some (str ''2007-03-02T00:00:00Z''))"
proof (intro conjI)
  have e: "str ''30th April each year'' \<noteq> []" by (simp add: str_def)
  from C1_normalize_string_unless_empty[of 2025 "str ''30th April each year''" _
      "str ''2026-04-30T00:00:00Z''"] e rules_on_examples(2,3)
  show "normalizeDateString 2025 (str ''30th April each year'') = Inr (Some (str ''2026-04-30T00:00:00Z''))"
    by blast
next
  have e: "str ''2021-03-04T05:06:07Z'' \<noteq> []" by (simp add: str_def)
  from C1_normalize_string_unless_empty[of 2025 "str ''2021-03-04T05:06:07Z''"] e rules_on_iso
  show "normalizeDateString 2025 (str ''2021-03-04T05:06:07Z'') = Inr (Some (str ''2021-03-04T05:06:07Z''))"
    by blast
next
  from C1_normalize_string_unless_empty[of 2025 _ _ _ _ _ "str ''1''" "str ''st''" "str ''May''"
      "str ''05''" "str ''2003''"]
  show "normalizeDateString 2025 (str ''1st May 2003'') = Inr (Some (str ''2003-05-01T00:00:00Z''))"
    by (simp add: ev_shape)
next
  from C1_normalize_string_unless_empty[of 2025 _ _ _ _ _ _ _ _ _ "str ''1999''" "str ''12''" "str ''31''"]
  show "normalizeDateString 2025 (str ''1999/12/31'') = Inr (Some (str ''1999-12-31T00:00:00Z''))"
    by (simp add: ev_shape)
next
  from C1_normalize_string_unless_empty[of 2025 _ _ _ _ _ _ _ _ _ "str ''2007''" "str ''03''" "str ''02''"
      "[]" "[]" "[]"]
  show "normalizeDateString 2025 (str ''2007.03.02'') = Inr (Some (str ''2007-03-02T00:00:00Z''))"
    by (simp add: ev_shape)
next
  have e: "str ''30th April 2003'' \<noteq> []" by (simp add: str_def)
  from C1_normalize_string_unless_empty[of 2025 "str ''30th April 2003''" "str ''2003-04-30T00:00:00Z''"]
    e rules_on_examples(1)
  show "normalizeDateString 2025 (str ''30th April 2003'') = Inr (Some (str ''2003-04-30T00:00:00Z''))"
    by blast
next
  have e: "str ''2005/05/30'' \<noteq> []" by (simp add: str_def)
  from C1_normalize_string_unless_empty[of 2025 "str ''2005/05/30''" _ _ "str ''2005-05-30T00:00:00Z''"]
    e rules_on_examples(4,5,6)
  show "normalizeDateString 2025 (str ''2005/05/30'') = Inr (Some (str ''2005-05-30T00:00:00Z''))"
    by blast
next
  have e: "str ''2007. 03. 02.'' \<noteq> []" by (simp add: str_def)
  from C1_normalize_string_unless_empty[of 2025 "str ''2007. 03. 02.''" _ _ _ "str ''2007-03-02T00:00:00Z''"]
    e rules_on_examples(7,8,9,10)
  show "normalizeDateString 2025 (str ''2007. 03. 02.'') = Inr (Some (str ''2007-03-02T00:00:00Z''))"
    by blast
qed

text \<open>
  The claim as stated fails: on the empty string the function returns \<open>null\<close>, not a
  string.
\<close>

theorem C1_empty_string_gives_null:
  "normalizeDateString 2025 (str '''') = Inr None"
  by (simp add: str_def normalizeDateString_def)

text \<open>
  The month table is an object literal, so the lookup \<open>monthMap[month.toLowerCase()]\<close>
  also finds the properties every object inherits. With the month word \<open>constructor\<close>
  the first rule does not fall through: the inherited function is truthy and its text
  is put where the month number belongs. This input has none of the supported shapes.
\<close>

lemma inherited_property_read_as_month:
  "normalizeDateString nowYear (str ''30th constructor 2003'')
   = Inr (Some (str ''2003-function Object() { [native code] }-30T00:00:00Z''))"
  by (simp add: ev_chars ev_regex ev_fault ev_date)

text \<open>
  Claim C5. An input made of a day number, an ordinal suffix, a space, an English month
  name in any casing and the words \<open>each year\<close> is resolved to the year of the call plus
  one: the result is that year, the month number of the table and the day padded by
  \<open>padStart(2, '0')\<close>, with the time \<open>T00:00:00Z\<close>. The only thing read from the clock is
  the year (\<open>new Date().getFullYear()\<close>, here \<open>nowYear\<close>), so the month and the day of the
  call play no part.
\<close>

theorem C5_recurring_date_next_year:
  "N \<noteq> [] \<and> list_all is_digit N \<and> is_ordinal sfx \<and> map_of monthNames (toLowerCase W) = Some mm
   \<longrightarrow> normalizeDateString nowYear (N @ sfx @ str '' '' @ W @ str '' each year'')
       = Inr (Some (show_int (nowYear + 1) @ str ''-'' @ mm @ str ''-'' @ padStart2 N
                    @ str ''T00:00:00Z''))"
  using recurring_shape[of N sfx W mm nowYear] by blast

theorem C5_recurring_date_next_year_witness:
  "normalizeDateString 2025 (str ''3rd december each year'') = Inr (Some (str ''2026-12-03T00:00:00Z''))"
  using C5_recurring_date_next_year[of "str ''3''" "str ''rd''" "str ''december''" "str ''12''" 2025]
  by (simp add: ev_shape show_int_def)

text \<open>
  Claim C10. The normalizer checks no calendar. Any four digits, slash, two digits,
  slash, two digits are rewritten with dashes, whatever month or day the digits denote,
  and so is the dotted form; the ordinal rule takes any day number. Hence
  \<open>2005/99/99\<close>, \<open>2007. 99. 99.\<close> and \<open>99th April 2003\<close> give stamps that are no dates.
\<close>

theorem C10_no_calendar_validation:
  "(length Y = 4 \<and> list_all is_digit Y \<and> length M = 2 \<and> list_all is_digit M
        \<and> length D = 2 \<and> list_all is_digit D
      \<longrightarrow> normalizeDateString nowYear (Y @ str ''/'' @ M @ str ''/'' @ D)
          = Inr (Some (Y @ str ''-'' @ M @ str ''-'' @ D @ str ''T00:00:00Z''))
        \<and> (list_all is_space W1 \<and> list_all is_space W2 \<and> (dot = [] \<or> dot = str ''.'')
           \<longrightarrow> normalizeDateString nowYear (Y @ str ''.'' @ W1 @ M @ str ''.'' @ W2 @ D @ dot)
               = Inr (Some (Y @ str ''-'' @ M @ str ''-'' @ D @ str ''T00:00:00Z''))))
   \<and> (N \<noteq> [] \<and> list_all is_digit N \<and> is_ordinal sfx \<and> map_of monthNames (toLowerCase W) = Some mm
        \<and> length Y = 4 \<and> list_all is_digit Y
      \<longrightarrow> normalizeDateString nowYear (N @ sfx @ str '' '' @ W @ str '' '' @ Y)
          = Inr (Some (Y @ str ''-'' @ mm @ str ''-'' @ padStart2 N @ str ''T00:00:00Z'')))
   \<and> normalizeDateString nowYear (str ''2005/99/99'') = Inr (Some (str ''2005-99-99T00:00:00Z''))
   \<and> normalizeDateString nowYear (str ''2007. 99. 99.'') = Inr (Some (str ''2007-99-99T00:00:00Z''))
   \<and> normalizeDateString nowYear (str ''99th April 2003'') = Inr (Some (str ''2003-04-99T00:00:00Z''))"
  using jp_shape[of Y M D nowYear] kr_shape[of Y M D W1 W2 dot nowYear] gg_shape[of N sfx W mm Y nowYear]
    example_jp_99[of nowYear] example_kr_99[of nowYear] example_gg_99[of nowYear]
  by blast

theorem C10_no_calendar_validation_witness:
  "normalizeDateString 2025 (str ''0000/00/00'') = Inr (Some (str ''0000-00-00T00:00:00Z''))
   \<and> normalizeDateString 2025 (str ''2007.13.32'') = Inr (Some (str ''2007-13-32T00:00:00Z''))
   \<and> normalizeDateString 2025 (str ''0th February 2003'') = Inr (Some (str ''2003-02-00T00:00:00Z''))"
proof (intro conjI)
  from C10_no_calendar_validation[of "str ''0000''" "str ''00''" "str ''00''" 2025]
  show "normalizeDateString 2025 (str ''0000/00/00'') = Inr (Some (str ''0000-00-00T00:00:00Z''))"
    by (simp add: ev_shape)
next
  from C10_no_calendar_validation[of "str ''2007''" "str ''13''" "str ''32''" 2025 "[]" "[]" "[]"]
  show "normalizeDateString 2025 (str ''2007.13.32'') = Inr (Some (str ''2007-13-32T00:00:00Z''))"
    by (simp add: ev_shape)
next
  from C10_no_calendar_validation[of "str ''2003''" _ _ 2025 _ _ _ "str ''0''" "str ''th''"
      "str ''February''" "str ''02''"]
  show "normalizeDateString 2025 (str ''0th February 2003'') = Inr (Some (str ''2003-02-00T00:00:00Z''))"
    by (simp add: ev_shape)
qed

end
